theory Spec2Isabelle
  imports Main "HOL-Library.Word"
begin

unbundle bit_operations_syntax

section \<open>Game of Chests: the solver of \<open>app.js\<close>\<close>

text \<open>
  Coins, sums and turn counters are JavaScript numbers that only ever hold small integers;
  they are modelled as \<open>int\<close> (coins, sums) and \<open>nat\<close> (turn, basket index).
\<close>

subsection \<open>Terminal evaluation\<close>

text \<open>
  \<^verbatim>\<open>const sorted = sums.slice().sort((a,b)=>b-a); const s1 = sorted[0], s2 = sorted[1];\<close>
  The comparator \<open>b-a\<close> sorts numbers in descending order. Reading an index past the end
  of a JavaScript array gives \<open>undefined\<close> (here \<open>None\<close>), and \<open>>\<close> with an
  \<open>undefined\<close> operand is \<open>false\<close>.
\<close>

definition sortDesc :: "int list \<Rightarrow> int list" where
  "sortDesc xs = rev (sort xs)"

definition nth_js :: "'a list \<Rightarrow> nat \<Rightarrow> 'a option" where
  "nth_js xs i = (if i < length xs then Some (xs ! i) else None)"

fun gt_js :: "int option \<Rightarrow> int option \<Rightarrow> bool" where
  "gt_js (Some a) (Some b) = (a > b)"
| "gt_js _ _ = False"

text \<open>The test \<open>s1 > s2\<close> on the two largest sums, as written in \<open>endGame\<close>,
  \<open>canForceWinGivenOffer\<close> and \<open>aiChooseCoinForOffer\<close>.\<close>

definition placerWins :: "int list \<Rightarrow> bool" where
  "placerWins sumsArr =
     (let sorted = sortDesc sumsArr; s1 = nth_js sorted 0; s2 = nth_js sorted 1
      in gt_js s1 s2)"

subsection \<open>Solver state and memoization key\<close>

record state =
  sums :: "int list"
  remaining :: "int list"
  turn :: nat

text \<open>
  \<^verbatim>\<open>let mask = 0; for(const c of remainingArr) mask |= 1 << (c-1);\<close>
  JavaScript's \<open><<\<close> and \<open>|\<close> work on 32-bit integers and take the shift count
  modulo 32.
\<close>

definition maskOf :: "int list \<Rightarrow> 32 word" where
  "maskOf remainingArr =
     foldl (\<lambda>mask c. mask OR push_bit (nat ((c - 1) mod 32)) 1) 0 remainingArr"

text \<open>
  The key is the template string
  \<^verbatim>\<open>`${sumsArr[0]},${sumsArr[1]},${sumsArr[2]}|${mask}|${turnVal}|${offeredIdx}`\<close>.
  Decimal numerals never contain the separators, so two such strings are equal exactly when
  the six printed values are; the key is modelled as the tuple of these values.
\<close>

type_synonym key = "int option \<times> int option \<times> int option \<times> 32 word \<times> nat \<times> nat"

definition stateKey :: "int list \<Rightarrow> int list \<Rightarrow> nat \<Rightarrow> nat \<Rightarrow> key" where
  "stateKey sumsArr remainingArr turnVal offeredIdx =
     (nth_js sumsArr 0, nth_js sumsArr 1, nth_js sumsArr 2,
      maskOf remainingArr, turnVal, offeredIdx)"

type_synonym memo = "key \<rightharpoonup> bool"

subsection \<open>The memoized search\<close>

text \<open>
  \<^verbatim>\<open>const newSums = state.sums.slice(); newSums[offeredIdx] += c;\<close>
  The basket index is always one of 0, 1, 2 and the sums array has three entries; the
  theorems below assume so.
\<close>

definition addCoin :: "int list \<Rightarrow> nat \<Rightarrow> int \<Rightarrow> int list" where
  "addCoin sumsArr offeredIdx c = sumsArr[offeredIdx := sumsArr ! offeredIdx + c]"

definition placeCoin :: "state \<Rightarrow> nat \<Rightarrow> int \<Rightarrow> state" where
  "placeCoin st offeredIdx c =
     \<lparr> sums = addCoin (sums st) offeredIdx c,
       remaining = filter (\<lambda>x. x \<noteq> c) (remaining st),
       turn = turn st + 1 \<rparr>"

text \<open>
  \<open>canForceWinGivenOffer\<close> with the global \<open>memo\<close> passed in and returned. The loop over
  the coins is \<open>coinLoop\<close> (its last argument is the part of \<open>state.remaining\<close> still to
  be tried), the loop over \<open>nextOff\<close> is \<open>offerLoop\<close>.
\<close>

function canForceWinGivenOffer :: "memo \<Rightarrow> state \<Rightarrow> nat \<Rightarrow> bool \<times> memo"
  and coinLoop :: "memo \<Rightarrow> state \<Rightarrow> nat \<Rightarrow> int list \<Rightarrow> bool \<times> memo"
  and offerLoop :: "memo \<Rightarrow> state \<Rightarrow> nat \<Rightarrow> bool \<times> memo"
where
  "canForceWinGivenOffer m st offeredIdx =
     (let k = stateKey (sums st) (remaining st) (turn st) offeredIdx in
      case m k of
        Some v \<Rightarrow> (v, m)
      | None \<Rightarrow>
          if length (remaining st) = 0 then
            (let res = placerWins (sums st) in (res, m(k \<mapsto> res)))
          else coinLoop m st offeredIdx (remaining st))"
| "coinLoop m st offeredIdx [] =
     (False, m(stateKey (sums st) (remaining st) (turn st) offeredIdx \<mapsto> False))"
| "coinLoop m st offeredIdx (c # cs) =
     (let k = stateKey (sums st) (remaining st) (turn st) offeredIdx;
          next = placeCoin st offeredIdx c in
      if turn next \<ge> 4 then
        (if placerWins (sums next) then (True, m(k \<mapsto> True))
         else coinLoop m st offeredIdx cs)
      else
        (case offerLoop m next 0 of
           (allNext, m') \<Rightarrow>
             if allNext then (True, m'(k \<mapsto> True))
             else coinLoop m' st offeredIdx cs))"
| "offerLoop m next nextOff =
     (if nextOff < 3 then
        (case canForceWinGivenOffer m next nextOff of
           (ok, m') \<Rightarrow> if \<not> ok then (False, m') else offerLoop m' next (nextOff + 1))
      else (True, m))"
  by pat_completeness auto
termination
  by (relation "inv_image (less_than <*lex*> less_than <*lex*> less_than)
        (\<lambda>x. case x of
           Inl (m, st, off) \<Rightarrow> (4 - turn st, 1::nat, 0::nat)
         | Inr (Inl (m, st, off, cs)) \<Rightarrow> (4 - turn st, 0, length cs)
         | Inr (Inr (m, st, off)) \<Rightarrow> (4 - turn st, 2, 3 - off))")
     (auto simp: placeCoin_def)

declare canForceWinGivenOffer.simps [simp del]
declare offerLoop.simps [simp del]

text \<open>
  \<open>aiChooseCoinForOffer\<close>: the first coin that wins at once or survives all three next
  offers, else \<open>Math.max(...state.remaining)\<close>, which is \<open>-Infinity\<close> on an empty array.
\<close>

datatype num = Num int | NegInfinity

fun mathMax :: "int list \<Rightarrow> num" where
  "mathMax [] = NegInfinity"
| "mathMax (x # xs) = (case mathMax xs of NegInfinity \<Rightarrow> Num x | Num y \<Rightarrow> Num (max x y))"

fun chooseLoop :: "memo \<Rightarrow> state \<Rightarrow> nat \<Rightarrow> int list \<Rightarrow> num \<times> memo" where
  "chooseLoop m st offeredIdx [] = (mathMax (remaining st), m)"
| "chooseLoop m st offeredIdx (c # cs) =
     (let newState = placeCoin st offeredIdx c in
      if turn newState \<ge> 4 then
        (if placerWins (sums newState) then (Num c, m)
         else chooseLoop m st offeredIdx cs)
      else
        (case offerLoop m newState 0 of
           (allOk, m') \<Rightarrow>
             if allOk then (Num c, m') else chooseLoop m' st offeredIdx cs))"

definition aiChooseCoinForOffer :: "memo \<Rightarrow> state \<Rightarrow> nat \<Rightarrow> num \<times> memo" where
  "aiChooseCoinForOffer m st offeredIdx = chooseLoop m st offeredIdx (remaining st)"

subsection \<open>The search without the cache\<close>

text \<open>
  The uncached recomputation: the body of \<open>canForceWinGivenOffer\<close> with every lookup and
  store of \<open>memo\<close> removed. The placing role needs one coin (\<open>\<exists>\<close>) that either wins
  with the last placement or survives every next offer (\<open>\<forall>\<close>). It is the reference the
  memoized function is compared with.
\<close>

function canForceWin :: "state \<Rightarrow> nat \<Rightarrow> bool" where
  "canForceWin st offeredIdx =
     (if length (remaining st) = 0 then placerWins (sums st)
      else (\<exists>c \<in> set (remaining st).
              let next = placeCoin st offeredIdx c in
              if turn next \<ge> 4 then placerWins (sums next)
              else (\<forall>nextOff \<in> {0, 1, 2}. canForceWin next nextOff)))"
  by pat_completeness auto
termination
  by (relation "measure (\<lambda>(st, off). 4 - turn st)") (auto simp: placeCoin_def)

declare canForceWin.simps [simp del]

text \<open>A coin that the search accepts at state \<open>st\<close> when basket \<open>offeredIdx\<close> is offered.\<close>

definition forcing :: "state \<Rightarrow> nat \<Rightarrow> int \<Rightarrow> bool" where
  "forcing st offeredIdx c =
     (let next = placeCoin st offeredIdx c in
      if turn next \<ge> 4 then placerWins (sums next)
      else (\<forall>nextOff \<in> {0, 1, 2}. canForceWin next nextOff))"

text \<open>
  The states of the data model: three basket sums, and coin values that \<open>1 << (c-1)\<close>
  maps to distinct bits (the games use the coins 1..4, or 1..N with N at most 10).
\<close>

definition wellFormed :: "state \<Rightarrow> bool" where
  "wellFormed st \<longleftrightarrow> length (sums st) = 3 \<and> set (remaining st) \<subseteq> {1..32}"

text \<open>A cache all of whose entries for well-formed states hold the uncached result.\<close>

definition memo_ok :: "memo \<Rightarrow> bool" where
  "memo_ok m \<longleftrightarrow>
     (\<forall>st off v. wellFormed st \<longrightarrow> off < 3 \<longrightarrow>
        m (stateKey (sums st) (remaining st) (turn st) off) = Some v \<longrightarrow>
        v = canForceWin st off)"

text \<open>
  The caches the program can hold: empty (at load and after \<open>memo.clear()\<close>), or left
  behind by any earlier call of the two solver functions, in any order.
\<close>

inductive memo_reach :: "memo \<Rightarrow> bool" where
  cleared: "memo_reach Map.empty"
| solved: "memo_reach m \<Longrightarrow> wellFormed st \<Longrightarrow> offeredIdx < 3
           \<Longrightarrow> memo_reach (snd (canForceWinGivenOffer m st offeredIdx))"
| chosen: "memo_reach m \<Longrightarrow> wellFormed st \<Longrightarrow> offeredIdx < 3
           \<Longrightarrow> memo_reach (snd (aiChooseCoinForOffer m st offeredIdx))"

section \<open>The single-page game\<close>

text \<open>
  The module-level variables of the single-page game, the cache \<open>memo\<close>, the mode selector
  and the pending \<open>setTimeout\<close> callbacks form one record. Names shared with the solver
  state or the multiplayer state carry the suffix \<open>_g\<close>. Texts written to the page are
  left out, except the result line (\<open>None\<close> while \<open>resultEl.hidden\<close>) and the move list.
\<close>

datatype outcome = PlacerWins | PresenterWins

text \<open>The errors the program throws, all of them in the multiplayer transactions.\<close>

datatype error =
  NoBasketOffered | NotThePlacer | CoinNotAvailable | NotPresenter | AlreadyOffered | GameFinished

record app =
  baskets_g :: "int list list"
  sums_g :: "int list"
  remainingCoins :: "int list"
  turn_g :: nat
  awaitingOffer :: bool
  currentOffered_g :: "nat option"
  movesList :: "(nat \<times> nat \<times> int) list"
  resultText :: "(outcome \<times> int option \<times> int option) option"
  memo_g :: memo
  aiMode :: bool
  timers :: "(num \<times> nat) list"

definition newGame :: "app \<Rightarrow> app" where
  "newGame a =
     a\<lparr> baskets_g := [[], [], []], sums_g := [0, 0, 0], remainingCoins := [1, 2, 3, 4],
        turn_g := 0, awaitingOffer := True, currentOffered_g := None,
        movesList := [], resultText := None \<rparr>"

definition endGame :: "app \<Rightarrow> app" where
  "endGame a =
     (let sorted = sortDesc (sums_g a); s1 = nth_js sorted 0; s2 = nth_js sorted 1 in
      if gt_js s1 s2 then a\<lparr> resultText := Some (PlacerWins, s1, s2) \<rparr>
      else a\<lparr> resultText := Some (PresenterWins, s1, s2) \<rparr>)"

text \<open>
  \<open>doPlace(v, idx)\<close>. The coin may be \<open>-Infinity\<close> (the fallback of the chooser on an
  empty array), which no array of coins includes.
\<close>

definition doPlace :: "num \<Rightarrow> nat \<Rightarrow> app \<Rightarrow> app" where
  "doPlace v idx a =
     (if awaitingOffer a then a
      else case v of
        NegInfinity \<Rightarrow> a
      | Num c \<Rightarrow>
          if c \<notin> set (remainingCoins a) then a
          else
            (let a1 = a\<lparr> baskets_g := (baskets_g a)[idx := baskets_g a ! idx @ [c]],
                          sums_g := addCoin (sums_g a) idx c,
                          remainingCoins := filter (\<lambda>x. x \<noteq> c) (remainingCoins a),
                          movesList := movesList a @ [(turn_g a + 1, idx + 1, c)],
                          turn_g := turn_g a + 1,
                          currentOffered_g := None \<rparr>
             in if turn_g a1 \<ge> 4 then endGame a1
                else a1\<lparr> awaitingOffer := True \<rparr>))"

text \<open>
  \<open>offerBasket(idx)\<close>. In AI mode the chooser runs at once on copies of the variables and
  \<open>doPlace(best, idx)\<close> is queued with \<open>setTimeout\<close>.
\<close>

definition offerBasket :: "nat \<Rightarrow> app \<Rightarrow> app" where
  "offerBasket idx a =
     (if \<not> awaitingOffer a then a
      else
        (let a1 = a\<lparr> currentOffered_g := Some idx, awaitingOffer := False \<rparr> in
         if aiMode a1 then
           (case aiChooseCoinForOffer (memo_g a1)
                   \<lparr> sums = sums_g a1, remaining = remainingCoins a1, turn = turn_g a1 \<rparr> idx of
              (best, m') \<Rightarrow> a1\<lparr> memo_g := m', timers := timers a1 @ [(best, idx)] \<rparr>)
         else a1))"

text \<open>The event handlers: a coin button, the two new-game buttons, a timer that fires.\<close>

definition coinClick :: "int \<Rightarrow> app \<Rightarrow> app" where
  "coinClick val a =
     (case currentOffered_g a of None \<Rightarrow> a | Some off \<Rightarrow> doPlace (Num val) off a)"

definition newGameClick :: "app \<Rightarrow> app" where
  "newGameClick a = newGame (a\<lparr> memo_g := Map.empty \<rparr>)"

definition timerFires :: "app \<Rightarrow> app" where
  "timerFires a =
     (case timers a of
        [] \<Rightarrow> a
      | (best, idx) # ts \<Rightarrow> doPlace best idx (a\<lparr> timers := ts \<rparr>))"

text \<open>The page after loading: \<open>memo\<close> is empty and \<open>newGame()\<close> has run.\<close>

definition initialApp :: "bool \<Rightarrow> app" where
  "initialApp ai =
     \<lparr> baskets_g = [[], [], []], sums_g = [0, 0, 0], remainingCoins = [1, 2, 3, 4],
       turn_g = 0, awaitingOffer = True, currentOffered_g = None,
       movesList = [], resultText = None,
       memo_g = Map.empty, aiMode = ai, timers = [] \<rparr>"

text \<open>
  The states the page can reach: any sequence of clicks on the three offer buttons, the
  coin buttons and the new-game buttons, changes of the mode selector, and timers firing.
\<close>

inductive reachableApp :: "app \<Rightarrow> bool" where
  loaded: "reachableApp (initialApp ai)"
| offered: "reachableApp a \<Longrightarrow> idx < 3 \<Longrightarrow> reachableApp (offerBasket idx a)"
| clicked: "reachableApp a \<Longrightarrow> reachableApp (coinClick val a)"
| restarted: "reachableApp a \<Longrightarrow> reachableApp (newGameClick a)"
| fired: "reachableApp a \<Longrightarrow> reachableApp (timerFires a)"
| switched: "reachableApp a \<Longrightarrow> reachableApp (a\<lparr> aiMode := ai \<rparr>)"

text \<open>
  What every reachable state of the page satisfies: the bookkeeping of the data model
  (three baskets, \<open>turn\<close> coins placed, each coin 1..4 either remaining or in a basket,
  each sum the sum of its basket), the phases of a turn, and well-formed timers and cache.
\<close>

definition appInv :: "app \<Rightarrow> bool" where
  "appInv a \<longleftrightarrow>
     length (sums_g a) = 3 \<and> length (baskets_g a) = 3
     \<and> turn_g a + length (remainingCoins a) = 4
     \<and> distinct (remainingCoins a) \<and> sorted (remainingCoins a)
     \<and> set (remainingCoins a) \<subseteq> {1..4}
     \<and> map sum_list (baskets_g a) = sums_g a
     \<and> sum_list (sums_g a) + sum_list (remainingCoins a) = 10
     \<and> (resultText a = None \<longleftrightarrow> turn_g a < 4)
     \<and> (awaitingOffer a \<longleftrightarrow> currentOffered_g a = None \<and> turn_g a < 4)
     \<and> (\<forall>i. currentOffered_g a = Some i \<longrightarrow> i < 3)
     \<and> (\<forall>t \<in> set (timers a). snd t < 3)
     \<and> memo_reach (memo_g a)"

text \<open>
  The two operations as their callers see them. No path through \<open>offerBasket\<close> or
  \<open>doPlace\<close> has a \<open>throw\<close>, so a call always returns normally (\<open>Inr\<close>) with the new
  values of the variables; \<open>Inl\<close> would be a thrown error.
\<close>

definition offerBasketOutcome :: "nat \<Rightarrow> app \<Rightarrow> error + app" where
  "offerBasketOutcome idx a = Inr (offerBasket idx a)"

definition doPlaceOutcome :: "num \<Rightarrow> nat \<Rightarrow> app \<Rightarrow> error + app" where
  "doPlaceOutcome v idx a = Inr (doPlace v idx a)"

section \<open>The multiplayer game\<close>

text \<open>
  The shared state of a room extends the solver state by the fields the two transactions
  use. A field the database leaves out is read as its default: an absent
  \<open>currentOffered\<close> is \<open>None\<close>, an absent array is empty, an absent basket is \<open>[]\<close>
  (the baskets are a function from the index for that reason).
\<close>

datatype phase = Waiting | Offering | Placing | Finished

datatype ident = Undefined | Null | Uid string

record move =
  mv_turn :: nat
  mv_idx :: nat
  mv_coin :: int
  mv_by :: ident
  mv_byShort :: "string option"
  mv_ts :: nat

record cur = state +
  baskets :: "nat \<Rightarrow> int list"
  currentOffered :: "nat option"
  phase :: phase
  moves :: "move list"
  coinCount :: nat

record room =
  presenter :: ident
  placer :: ident

text \<open>\<open>initialState(coinCount = 4)\<close>\<close>

definition initialState :: "nat \<Rightarrow> cur" where
  "initialState n =
     \<lparr> sums = [0, 0, 0], remaining = map int [1 ..< n + 1], turn = 0,
       baskets = (\<lambda>i. []), currentOffered = None, phase = Waiting, moves = [],
       coinCount = n \<rparr>"

text \<open>\<open>cur.coinCount || 4\<close>\<close>

definition coinCountOr4 :: "cur \<Rightarrow> nat" where
  "coinCountOr4 c = (if coinCount c = 0 then 4 else coinCount c)"

text \<open>
  \<open>runTransaction(ref, update)\<close>: the value \<open>update\<close> returns is stored; when \<open>update\<close>
  throws, nothing is stored and the error reaches the caller.
\<close>

definition runTransaction ::
  "('s option \<Rightarrow> error + 's option) \<Rightarrow> 's option \<Rightarrow> 's option \<times> error option" where
  "runTransaction update db =
     (case update db of Inl e \<Rightarrow> (db, Some e) | Inr v \<Rightarrow> (v, None))"

text \<open>The update function of \<open>placeCoinTransaction(coin)\<close>; \<open>now\<close> is \<open>Date.now()\<close>.\<close>

definition placeCoinUpdate ::
  "ident \<Rightarrow> room option \<Rightarrow> nat \<Rightarrow> int \<Rightarrow> cur option \<Rightarrow> error + cur option" where
  "placeCoinUpdate uid roomData now coin db =
     (case db of
        None \<Rightarrow> Inr None
      | Some c \<Rightarrow>
          (case currentOffered c of
             None \<Rightarrow> Inl NoBasketOffered
           | Some idx \<Rightarrow>
               if (case roomData of None \<Rightarrow> Null | Some r \<Rightarrow> placer r) \<noteq> uid
               then Inl NotThePlacer
               else if coin \<notin> set (remaining c) then Inl CoinNotAvailable
               else
                 (let sums0 = (if sums c = [] then [0, 0, 0] else sums c);
                      c1 = c\<lparr> baskets := (baskets c)(idx := baskets c idx @ [coin]),
                                sums := addCoin sums0 idx coin,
                                remaining := filter (\<lambda>x. x \<noteq> coin) (remaining c),
                                moves := moves c @
                                  [\<lparr> mv_turn = turn c + 1, mv_idx = idx, mv_coin = coin,
                                     mv_by = uid,
                                     mv_byShort = (case uid of
                                                     Uid u \<Rightarrow> if u = [] then None
                                                              else Some (take 8 u)
                                                   | _ \<Rightarrow> None),
                                     mv_ts = now \<rparr>],
                                turn := turn c + 1,
                                currentOffered := None \<rparr>
                  in if turn c1 \<ge> coinCountOr4 c1 then Inr (Some (c1\<lparr> phase := Finished \<rparr>))
                     else Inr (Some (c1\<lparr> phase := Offering \<rparr>)))))"

definition placeCoinTransaction ::
  "ident \<Rightarrow> room option \<Rightarrow> nat \<Rightarrow> int \<Rightarrow> cur option \<Rightarrow> cur option \<times> error option" where
  "placeCoinTransaction uid roomData now coin db =
     runTransaction (placeCoinUpdate uid roomData now coin) db"

text \<open>The update function of the click handler of the offer buttons.\<close>

definition offerUpdate ::
  "ident \<Rightarrow> room option \<Rightarrow> nat \<Rightarrow> cur option \<Rightarrow> error + cur option" where
  "offerUpdate uid roomData idx db =
     (case db of
        None \<Rightarrow> Inr None
      | Some c \<Rightarrow>
          if (case roomData of None \<Rightarrow> Undefined | Some r \<Rightarrow> presenter r) \<noteq> uid
          then Inl NotPresenter
          else if currentOffered c \<noteq> None then Inl AlreadyOffered
          else if turn c \<ge> coinCountOr4 c then Inl GameFinished
          else Inr (Some (c\<lparr> currentOffered := Some idx, phase := Placing \<rparr>)))"

definition offerTransaction ::
  "ident \<Rightarrow> room option \<Rightarrow> nat \<Rightarrow> cur option \<Rightarrow> cur option \<times> error option" where
  "offerTransaction uid roomData idx db = runTransaction (offerUpdate uid roomData idx) db"

text \<open>
  The states a room can reach: created with 4 to 10 coins, then any sequence of the two
  transactions (by any client, accepted or not), the start of play once both players have
  joined, and a reset to the initial state with the room's coin count.
\<close>

inductive reachableRoom :: "cur \<Rightarrow> bool" where
  created: "4 \<le> n \<Longrightarrow> n \<le> 10 \<Longrightarrow> reachableRoom (initialState n)"
| offerTried: "reachableRoom c \<Longrightarrow> idx < 3 \<Longrightarrow>
     offerTransaction uid roomData idx (Some c) = (Some c', e) \<Longrightarrow> reachableRoom c'"
| placeTried: "reachableRoom c \<Longrightarrow>
     placeCoinTransaction uid roomData now coin (Some c) = (Some c', e) \<Longrightarrow> reachableRoom c'"
| started: "reachableRoom c \<Longrightarrow> phase c = Waiting \<Longrightarrow> reachableRoom (c\<lparr> phase := Offering \<rparr>)"
| reset: "reachableRoom c \<Longrightarrow> reachableRoom (initialState (coinCount c))"

definition roomInv :: "cur \<Rightarrow> bool" where
  "roomInv c \<longleftrightarrow>
     4 \<le> coinCount c \<and> coinCount c \<le> 10 \<and> length (sums c) = 3
     \<and> turn c + length (remaining c) = coinCount c
     \<and> distinct (remaining c)
     \<and> [sum_list (baskets c 0), sum_list (baskets c 1), sum_list (baskets c 2)] = sums c
     \<and> sum_list (sums c) + sum_list (remaining c) = sum_list (map int [1 ..< coinCount c + 1])
     \<and> (\<forall>i. currentOffered c = Some i \<longrightarrow> i < 3)
     \<and> (phase c = Finished \<longleftrightarrow> turn c = coinCount c)"

section \<open>The solver on shared arrays\<close>

text \<open>
  JavaScript passes arrays and objects by reference. To say what a call may change, the
  arrays and the state objects live in a store and are named by their address (the index in
  the store). \<open>slice\<close> and \<open>filter\<close> allocate a new array, an object literal allocates a new
  object, \<open>newSums[offeredIdx] += c\<close> and \<open>sort\<close> write into an array in place. The solver
  never reads or writes the field \<open>baskets\<close>, which is left out.
\<close>

record stateObj =
  sumsRef :: nat
  remainingRef :: nat
  turnVal :: nat

record store =
  arrays :: "int list list"
  objects :: "stateObj list"

definition newArray :: "int list \<Rightarrow> store \<Rightarrow> nat \<times> store" where
  "newArray xs s = (length (arrays s), s\<lparr> arrays := arrays s @ [xs] \<rparr>)"

definition newObject :: "stateObj \<Rightarrow> store \<Rightarrow> nat \<times> store" where
  "newObject ob s = (length (objects s), s\<lparr> objects := objects s @ [ob] \<rparr>)"

definition setArray :: "nat \<Rightarrow> int list \<Rightarrow> store \<Rightarrow> store" where
  "setArray a xs s = s\<lparr> arrays := (arrays s)[a := xs] \<rparr>"

text \<open>
  \<^verbatim>\<open>const sorted = xs.slice().sort((a,b)=>b-a); const s1 = sorted[0], s2 = sorted[1];\<close>
  followed by the test \<open>s1 > s2\<close>: the copy is sorted in place.
\<close>

definition placerWinsH :: "nat \<Rightarrow> store \<Rightarrow> bool \<times> store" where
  "placerWinsH a s =
     (case newArray (arrays s ! a) s of
        (sortedA, s1) \<Rightarrow>
          (let s2 = setArray sortedA (sortDesc (arrays s1 ! sortedA)) s1;
               s1v = nth_js (arrays s2 ! sortedA) 0;
               s2v = nth_js (arrays s2 ! sortedA) 1
           in (gt_js s1v s2v, s2)))"

text \<open>
  The block that applies a coin:
  \<^verbatim>\<open>const newSums = state.sums.slice(); newSums[offeredIdx] += c;\<close>
  \<^verbatim>\<open>const newRemaining = state.remaining.filter(x => x !== c); const newTurn = state.turn + 1;\<close>
  It returns the addresses of the two new arrays, the new turn and the new store.
\<close>

definition applyCoinH :: "store \<Rightarrow> nat \<Rightarrow> nat \<Rightarrow> int \<Rightarrow> nat \<times> nat \<times> nat \<times> store" where
  "applyCoinH s state offeredIdx c =
     (case newArray (arrays s ! sumsRef (objects s ! state)) s of
        (newSums, s1) \<Rightarrow>
          (let s2 = setArray newSums (addCoin (arrays s1 ! newSums) offeredIdx c) s1 in
           case newArray (filter (\<lambda>x. x \<noteq> c) (arrays s2 ! remainingRef (objects s2 ! state)))
                  s2 of
             (newRemaining, s3) \<Rightarrow>
               (newSums, newRemaining, turnVal (objects s3 ! state) + 1, s3)))"

text \<open>
  \<open>canForceWinGivenOffer(state, offeredIdx)\<close> on the store. The first argument bounds the
  number of nested calls and loop rounds (\<open>None\<close>: the bound was too small). The loop
  \<open>for(const c of state.remaining)\<close> reads the array \<open>it\<close> it was started on at index \<open>i\<close>, as
  the array iterator does; the body reads the fields of \<open>state\<close> again in every round.
\<close>

function canForceWinGivenOfferH ::
      "nat \<Rightarrow> memo \<Rightarrow> store \<Rightarrow> nat \<Rightarrow> nat \<Rightarrow> (bool \<times> memo \<times> store) option"
  and coinLoopH ::
      "nat \<Rightarrow> memo \<Rightarrow> store \<Rightarrow> nat \<Rightarrow> nat \<Rightarrow> key \<Rightarrow> nat \<Rightarrow> nat
         \<Rightarrow> (bool \<times> memo \<times> store) option"
  and offerLoopH ::
      "nat \<Rightarrow> memo \<Rightarrow> store \<Rightarrow> nat \<Rightarrow> nat \<Rightarrow> nat \<Rightarrow> nat \<Rightarrow> (bool \<times> memo \<times> store) option"
where
  "canForceWinGivenOfferH n m s state offeredIdx =
     (if n = 0 then None
      else
        (let st = objects s ! state;
             k = stateKey (arrays s ! sumsRef st) (arrays s ! remainingRef st) (turnVal st)
                   offeredIdx in
         case m k of
           Some v \<Rightarrow> Some (v, m, s)
         | None \<Rightarrow>
             if length (arrays s ! remainingRef st) = 0 then
               (case placerWinsH (sumsRef st) s of
                  (res, s1) \<Rightarrow> Some (res, m(k \<mapsto> res), s1))
             else coinLoopH (n - 1) m s state offeredIdx k (remainingRef st) 0))"
| "coinLoopH n m s state offeredIdx k it i =
     (if n = 0 then None
      else if i < length (arrays s ! it) then
        (case applyCoinH s state offeredIdx (arrays s ! it ! i) of
           (newSums, newRemaining, newTurn, s3) \<Rightarrow>
             if newTurn \<ge> 4 then
               (case placerWinsH newSums s3 of
                  (win, s4) \<Rightarrow>
                    if win then Some (True, m(k \<mapsto> True), s4)
                    else coinLoopH (n - 1) m s4 state offeredIdx k it (i + 1))
             else
               (case offerLoopH (n - 1) m s3 newSums newRemaining newTurn 0 of
                  None \<Rightarrow> None
                | Some (allNext, m', s4) \<Rightarrow>
                    if allNext then Some (True, m'(k \<mapsto> True), s4)
                    else coinLoopH (n - 1) m' s4 state offeredIdx k it (i + 1)))
      else Some (False, m(k \<mapsto> False), s))"
| "offerLoopH n m s newSums newRemaining newTurn nextOff =
     (if n = 0 then None
      else if nextOff < 3 then
        (case newObject \<lparr> sumsRef = newSums, remainingRef = newRemaining, turnVal = newTurn \<rparr> s of
           (nextState, s1) \<Rightarrow>
             (case canForceWinGivenOfferH (n - 1) m s1 nextState nextOff of
                None \<Rightarrow> None
              | Some (ok, m', s2) \<Rightarrow>
                  if \<not> ok then Some (False, m', s2)
                  else offerLoopH (n - 1) m' s2 newSums newRemaining newTurn (nextOff + 1)))
      else Some (True, m, s))"
  by pat_completeness auto
termination
  by (relation "measure (\<lambda>x. case x of
           Inl (n, r) \<Rightarrow> n
         | Inr (Inl (n, r)) \<Rightarrow> n
         | Inr (Inr (n, r)) \<Rightarrow> n)") auto

declare canForceWinGivenOfferH.simps [simp del]
declare coinLoopH.simps [simp del]
declare offerLoopH.simps [simp del]

text \<open>
  \<open>aiChooseCoinForOffer(state, offeredIdx)\<close> on the store. Its inner loop passes the one
  object \<open>newState\<close> to all three calls of the search.
\<close>

fun offerLoopAI ::
  "nat \<Rightarrow> memo \<Rightarrow> store \<Rightarrow> nat \<Rightarrow> nat \<Rightarrow> (bool \<times> memo \<times> store) option" where
  "offerLoopAI 0 m s newState nextOff = None"
| "offerLoopAI (Suc n) m s newState nextOff =
     (if nextOff < 3 then
        (case canForceWinGivenOfferH n m s newState nextOff of
           None \<Rightarrow> None
         | Some (ok, m', s1) \<Rightarrow>
             if \<not> ok then Some (False, m', s1)
             else offerLoopAI n m' s1 newState (nextOff + 1))
      else Some (True, m, s))"

fun chooseLoopH ::
  "nat \<Rightarrow> memo \<Rightarrow> store \<Rightarrow> nat \<Rightarrow> nat \<Rightarrow> nat \<Rightarrow> nat \<Rightarrow> (num \<times> memo \<times> store) option" where
  "chooseLoopH 0 m s state offeredIdx it i = None"
| "chooseLoopH (Suc n) m s state offeredIdx it i =
     (if i < length (arrays s ! it) then
        (case applyCoinH s state offeredIdx (arrays s ! it ! i) of
           (newSums, newRemaining, newTurn, s3) \<Rightarrow>
             (case newObject \<lparr> sumsRef = newSums, remainingRef = newRemaining,
                               turnVal = newTurn \<rparr> s3 of
                (newState, s4) \<Rightarrow>
                  if turnVal (objects s4 ! newState) \<ge> 4 then
                    (case placerWinsH newSums s4 of
                       (win, s5) \<Rightarrow>
                         if win then Some (Num (arrays s ! it ! i), m, s5)
                         else chooseLoopH n m s5 state offeredIdx it (i + 1))
                  else
                    (case offerLoopAI n m s4 newState 0 of
                       None \<Rightarrow> None
                     | Some (allOk, m', s5) \<Rightarrow>
                         if allOk then Some (Num (arrays s ! it ! i), m', s5)
                         else chooseLoopH n m' s5 state offeredIdx it (i + 1))))
      else Some (mathMax (arrays s ! remainingRef (objects s ! state)), m, s))"

definition aiChooseCoinForOfferH ::
  "nat \<Rightarrow> memo \<Rightarrow> store \<Rightarrow> nat \<Rightarrow> nat \<Rightarrow> (num \<times> memo \<times> store) option" where
  "aiChooseCoinForOfferH n m s state offeredIdx =
     chooseLoopH n m s state offeredIdx (remainingRef (objects s ! state)) 0"

text \<open>
  The state object at address \<open>p\<close> as a value, and the objects a caller can hold: their
  fields point to arrays of the store.
\<close>

definition stateAt :: "store \<Rightarrow> nat \<Rightarrow> state" where
  "stateAt s p =
     \<lparr> sums = arrays s ! sumsRef (objects s ! p),
       remaining = arrays s ! remainingRef (objects s ! p),
       turn = turnVal (objects s ! p) \<rparr>"

definition validObj :: "store \<Rightarrow> nat \<Rightarrow> bool" where
  "validObj s p \<longleftrightarrow>
     p < length (objects s) \<and> sumsRef (objects s ! p) < length (arrays s)
     \<and> remainingRef (objects s ! p) < length (arrays s)"

text \<open>\<open>s'\<close> holds every array and every object of \<open>s\<close>, with the same contents.\<close>

definition unchanged :: "store \<Rightarrow> store \<Rightarrow> bool" where
  "unchanged s s' \<longleftrightarrow>
     (\<exists>as os. arrays s' = arrays s @ as \<and> objects s' = objects s @ os)"

text \<open>With a bound that is large enough, the call \<open>f\<close> returns \<open>r\<close> and the cache \<open>m'\<close>.\<close>

definition returnsH :: "(nat \<Rightarrow> ('a \<times> memo \<times> store) option) \<Rightarrow> 'a \<Rightarrow> memo \<Rightarrow> bool" where
  "returnsH f r m' \<longleftrightarrow> (\<exists>N s'. \<forall>n \<ge> N. f n = Some (r, m', s'))"

section \<open>Properties of the solver\<close>

subsection \<open>The key separates well-formed states\<close>

lemma bit_maskOf_aux:
  "bit (foldl (\<lambda>mask c. mask OR push_bit (nat ((c - 1) mod 32)) (1::32 word)) acc cs) n
     \<longleftrightarrow> bit acc n \<or> (n < 32 \<and> (\<exists>c \<in> set cs. nat ((c - 1) mod 32) = n))"
  by (induction cs arbitrary: acc) (auto simp: bit_simps)

lemma bit_maskOf:
  "bit (maskOf cs) n \<longleftrightarrow> n < 32 \<and> (\<exists>c \<in> set cs. nat ((c - 1) mod 32) = n)"
  unfolding maskOf_def using bit_maskOf_aux[of 0 cs n] by simp

lemma maskOf_inj:
  assumes "set xs \<subseteq> {1..32}" "set ys \<subseteq> {1..32}" "maskOf xs = maskOf ys"
  shows "set xs = set ys"
proof -
  have *: "c \<in> set zs \<longleftrightarrow> bit (maskOf zs) (nat (c - 1))" if "set zs \<subseteq> {1..32}" "1 \<le> c" "c \<le> 32" for zs c
  proof
    assume "c \<in> set zs"
    then show "bit (maskOf zs) (nat (c - 1))" using that
      by (auto simp: bit_maskOf intro!: bexI[of _ c])
  next
    assume "bit (maskOf zs) (nat (c - 1))"
    then obtain d where d: "d \<in> set zs" "nat ((d - 1) mod 32) = nat (c - 1)"
      by (auto simp: bit_maskOf)
    then have dr: "1 \<le> d" "d \<le> 32" using that by auto
    then have "(d - 1) mod 32 = d - 1" by simp
    with d that dr have "d = c" by simp
    with d show "c \<in> set zs" by simp
  qed
  show ?thesis
  proof (rule set_eqI)
    fix c
    show "c \<in> set xs \<longleftrightarrow> c \<in> set ys"
    proof (cases "1 \<le> c \<and> c \<le> 32")
      case True
      then show ?thesis using *[OF assms(1), of c] *[OF assms(2), of c] assms(3) by simp
    next
      case False
      then show ?thesis using assms(1,2) by auto
    qed
  qed
qed

lemma nth_js_eq3:
  assumes "length xs = 3" "length ys = 3"
    "nth_js xs 0 = nth_js ys 0" "nth_js xs 1 = nth_js ys 1" "nth_js xs 2 = nth_js ys 2"
  shows "xs = ys"
proof (rule nth_equalityI)
  show "length xs = length ys" using assms by simp
next
  fix i assume "i < length xs"
  then have "i = 0 \<or> i = 1 \<or> i = 2" using assms(1) by auto
  then show "xs ! i = ys ! i" using assms by (auto simp: nth_js_def)
qed

lemma canForceWin_set:
  "sums st = sums st' \<Longrightarrow> turn st = turn st' \<Longrightarrow> set (remaining st) = set (remaining st')
   \<Longrightarrow> canForceWin st off = canForceWin st' off"
proof (induction st off arbitrary: st' rule: canForceWin.induct)
  case (1 st off)
  have e: "remaining st = [] \<longleftrightarrow> remaining st' = []"
    using "1.prems"(3) by (metis set_empty)
  show ?case
  proof (cases "remaining st = []")
    case True
    then show ?thesis using e "1.prems" by (simp add: canForceWin.simps[of st] canForceWin.simps[of st'])
  next
    case False
    have step: "(let next = placeCoin st off c in
              if turn next \<ge> 4 then placerWins (sums next)
              else (\<forall>nextOff \<in> {0, 1, 2}. canForceWin next nextOff))
          = (let next = placeCoin st' off c in
              if turn next \<ge> 4 then placerWins (sums next)
              else (\<forall>nextOff \<in> {0, 1, 2}. canForceWin next nextOff))" if c: "c \<in> set (remaining st)" for c
    proof (cases "turn (placeCoin st off c) \<ge> 4")
      case True
      then show ?thesis using "1.prems" by (simp add: placeCoin_def Let_def)
    next
      case F: False
      have "canForceWin (placeCoin st off c) b = canForceWin (placeCoin st' off c) b" if "b \<in> {0,1,2}" for b
        using "1.IH"[OF _ c refl F that, of "placeCoin st' off c"] False "1.prems"
        by (simp add: placeCoin_def)
      then show ?thesis using F "1.prems" by (simp add: placeCoin_def Let_def)
    qed
    show ?thesis using False e "1.prems"(3) step
      by (simp add: canForceWin.simps[of st] canForceWin.simps[of st'])
  qed
qed

lemma canForceWin_forcing:
  "canForceWin st off =
     (if remaining st = [] then placerWins (sums st)
      else (\<exists>c \<in> set (remaining st). forcing st off c))"
  by (subst canForceWin.simps) (simp add: forcing_def)

lemma stateKey_collision:
  assumes "wellFormed st" "wellFormed st'"
    and "stateKey (sums st) (remaining st) (turn st) off
         = stateKey (sums st') (remaining st') (turn st') off'"
  shows "canForceWin st off = canForceWin st' off'"
proof -
  from assms(3) have k: "nth_js (sums st) 0 = nth_js (sums st') 0"
    "nth_js (sums st) 1 = nth_js (sums st') 1" "nth_js (sums st) 2 = nth_js (sums st') 2"
    "maskOf (remaining st) = maskOf (remaining st')" "turn st = turn st'" "off = off'"
    by (simp_all add: stateKey_def)
  have "sums st = sums st'"
    using assms(1,2) k(1-3) by (intro nth_js_eq3) (simp_all add: wellFormed_def)
  moreover have "set (remaining st) = set (remaining st')"
    using assms(1,2) k(4) by (intro maskOf_inj) (simp_all add: wellFormed_def)
  ultimately show ?thesis using k(5,6) canForceWin_set by blast
qed

lemma memo_ok_empty: "memo_ok Map.empty"
  by (simp add: memo_ok_def)

lemma memo_ok_upd:
  assumes "memo_ok m" "wellFormed st" "off < 3"
  shows "memo_ok (m(stateKey (sums st) (remaining st) (turn st) off \<mapsto> canForceWin st off))"
  unfolding memo_ok_def
proof (intro allI impI)
  fix st' off' v
  assume a: "wellFormed st'" "off' < 3"
    "(m(stateKey (sums st) (remaining st) (turn st) off \<mapsto> canForceWin st off))
       (stateKey (sums st') (remaining st') (turn st') off') = Some v"
  show "v = canForceWin st' off'"
  proof (cases "stateKey (sums st') (remaining st') (turn st') off'
                = stateKey (sums st) (remaining st) (turn st) off")
    case True
    then have "v = canForceWin st off" using a(3) by simp
    then show ?thesis using stateKey_collision[OF assms(2) a(1)] True by simp
  next
    case False
    then show ?thesis using a assms(1) by (simp add: memo_ok_def)
  qed
qed

lemma wellFormed_placeCoin: "wellFormed st \<Longrightarrow> wellFormed (placeCoin st off c)"
  by (auto simp: wellFormed_def placeCoin_def addCoin_def)

lemma memo_sound_all:
  "(memo_ok m \<longrightarrow> wellFormed st \<longrightarrow> off < 3 \<longrightarrow>
      fst (canForceWinGivenOffer m st off) = canForceWin st off
      \<and> memo_ok (snd (canForceWinGivenOffer m st off)))"
  "(memo_ok m1 \<longrightarrow> wellFormed st1 \<longrightarrow> off1 < 3 \<longrightarrow> remaining st1 \<noteq> [] \<longrightarrow>
      (canForceWin st1 off1 \<longleftrightarrow> (\<exists>c \<in> set cs. forcing st1 off1 c)) \<longrightarrow>
      fst (coinLoop m1 st1 off1 cs) = canForceWin st1 off1
      \<and> memo_ok (snd (coinLoop m1 st1 off1 cs)))"
  "(memo_ok m2 \<longrightarrow> wellFormed st2 \<longrightarrow>
      (fst (offerLoop m2 st2 off2) \<longleftrightarrow> (\<forall>b \<in> {0, 1, 2}. off2 \<le> b \<longrightarrow> canForceWin st2 b))
      \<and> memo_ok (snd (offerLoop m2 st2 off2)))"
proof (induction m st off and m1 st1 off1 cs and m2 st2 off2
       rule: canForceWinGivenOffer_coinLoop_offerLoop.induct)
  case (1 m st offeredIdx)
  show ?case
  proof (intro impI)
    assume ok: "memo_ok m" and wf: "wellFormed st" and off: "offeredIdx < 3"
    let ?k = "stateKey (sums st) (remaining st) (turn st) offeredIdx"
    show "fst (canForceWinGivenOffer m st offeredIdx) = canForceWin st offeredIdx
      \<and> memo_ok (snd (canForceWinGivenOffer m st offeredIdx))"
    proof (cases "m ?k")
      case (Some v)
      then have "v = canForceWin st offeredIdx" using ok wf off by (simp add: memo_ok_def)
      then show ?thesis using Some ok by (simp add: canForceWinGivenOffer.simps)
    next
      case None
      show ?thesis
      proof (cases "remaining st = []")
        case True
        then show ?thesis using None memo_ok_upd[OF ok wf off]
          by (simp add: canForceWin_forcing Let_def canForceWinGivenOffer.simps)
      next
        case False
        have "fst (coinLoop m st offeredIdx (remaining st)) = canForceWin st offeredIdx
            \<and> memo_ok (snd (coinLoop m st offeredIdx (remaining st)))"
          using "1.IH"[OF refl None] False ok wf off by (simp add: canForceWin_forcing)
        then show ?thesis using None False by (simp add: canForceWinGivenOffer.simps)
      qed
    qed
  qed
next
  case (2 m st offeredIdx)
  show ?case
  proof (intro impI)
    assume ok: "memo_ok m" and wf: "wellFormed st" and off: "offeredIdx < 3"
      and ex: "canForceWin st offeredIdx \<longleftrightarrow> (\<exists>c \<in> set []. forcing st offeredIdx c)"
    from ex have f: "canForceWin st offeredIdx = False" by simp
    show "fst (coinLoop m st offeredIdx []) = canForceWin st offeredIdx
      \<and> memo_ok (snd (coinLoop m st offeredIdx []))"
      using memo_ok_upd[OF ok wf off] unfolding f by simp
  qed
next
  case (3 m st offeredIdx c cs)
  show ?case
  proof (intro impI)
    assume ok: "memo_ok m" and wf: "wellFormed st" and off: "offeredIdx < 3"
      and ne: "remaining st \<noteq> []"
      and ex: "canForceWin st offeredIdx \<longleftrightarrow> (\<exists>c \<in> set (c # cs). forcing st offeredIdx c)"
    let ?k = "stateKey (sums st) (remaining st) (turn st) offeredIdx"
    let ?next = "placeCoin st offeredIdx c"
    have wfn: "wellFormed ?next" using wf by (rule wellFormed_placeCoin)
    show "fst (coinLoop m st offeredIdx (c # cs)) = canForceWin st offeredIdx
      \<and> memo_ok (snd (coinLoop m st offeredIdx (c # cs)))"
    proof (cases "turn ?next \<ge> 4")
      case True
      show ?thesis
      proof (cases "placerWins (sums ?next)")
        case pw: True
        then have "forcing st offeredIdx c" using True by (simp add: forcing_def Let_def)
        then have "canForceWin st offeredIdx" using ex by auto
        then show ?thesis using True pw memo_ok_upd[OF ok wf off] by simp
      next
        case pw: False
        then have "\<not> forcing st offeredIdx c" using True by (simp add: forcing_def Let_def)
        then have "canForceWin st offeredIdx \<longleftrightarrow> (\<exists>c \<in> set cs. forcing st offeredIdx c)"
          using ex by auto
        then show ?thesis using "3.IH"(1)[OF refl refl True pw] True pw ok wf off ne by simp
      qed
    next
      case False
      obtain allNext m' where ol: "offerLoop m ?next 0 = (allNext, m')"
        by (cases "offerLoop m ?next 0")
      have r: "(allNext \<longleftrightarrow> (\<forall>b \<in> {0, 1, 2}. canForceWin ?next b)) \<and> memo_ok m'"
        using "3.IH"(2)[OF refl refl False] ok wfn ol by simp
      show ?thesis
      proof (cases allNext)
        case an: True
        then have "forcing st offeredIdx c" using r False by (simp add: forcing_def Let_def)
        then have "canForceWin st offeredIdx" using ex by auto
        then show ?thesis using False ol an memo_ok_upd[OF _ wf off, of m'] r by simp
      next
        case an: False
        then have "\<not> forcing st offeredIdx c" using r False by (simp add: forcing_def Let_def)
        then have "canForceWin st offeredIdx \<longleftrightarrow> (\<exists>c \<in> set cs. forcing st offeredIdx c)"
          using ex by auto
        then show ?thesis
          using "3.IH"(3)[OF refl refl False ol[symmetric] an] False ol an r wf off ne by simp
      qed
    qed
  qed
next
  case (4 m "next" nextOff)
  show ?case
  proof (intro impI)
    assume ok: "memo_ok m" and wf: "wellFormed next"
    show "(fst (offerLoop m next nextOff) \<longleftrightarrow>
            (\<forall>b \<in> {0, 1, 2}. nextOff \<le> b \<longrightarrow> canForceWin next b))
          \<and> memo_ok (snd (offerLoop m next nextOff))"
    proof (cases "nextOff < 3")
      case False
      then show ?thesis using ok by (subst (1 2) offerLoop.simps) auto
    next
      case True
      obtain okv m' where c: "canForceWinGivenOffer m next nextOff = (okv, m')"
        by (cases "canForceWinGivenOffer m next nextOff")
      have r: "okv = canForceWin next nextOff \<and> memo_ok m'"
        using "4.IH"(1)[OF True] ok wf True c by simp
      show ?thesis
      proof (cases okv)
        case o: False
        have "nextOff \<in> {0, 1, 2}" using True by auto
        then have "\<not> (\<forall>b \<in> {0, 1, 2}. nextOff \<le> b \<longrightarrow> canForceWin next b)"
          using r o by blast
        then show ?thesis using True c o r by (subst (1 2) offerLoop.simps) simp
      next
        case o: True
        have ih: "(fst (offerLoop m' next (nextOff + 1)) \<longleftrightarrow>
            (\<forall>b \<in> {0, 1, 2}. nextOff + 1 \<le> b \<longrightarrow> canForceWin next b))
          \<and> memo_ok (snd (offerLoop m' next (nextOff + 1)))"
          using "4.IH"(2)[OF True c[symmetric]] o r wf by simp
        have "(\<forall>b \<in> {0, 1, 2}. nextOff \<le> b \<longrightarrow> canForceWin next b)
           \<longleftrightarrow> (\<forall>b \<in> {0, 1, 2}. nextOff + 1 \<le> b \<longrightarrow> canForceWin next b)"
        proof -
          have "(nextOff \<le> b \<longrightarrow> canForceWin next b)
              \<longleftrightarrow> (nextOff + 1 \<le> b \<longrightarrow> canForceWin next b)" for b
          proof (cases "b = nextOff")
            case True
            then show ?thesis using r o by simp
          next
            case False
            then have "nextOff \<le> b \<longleftrightarrow> nextOff + 1 \<le> b" by arith
            then show ?thesis by simp
          qed
          then show ?thesis by simp
        qed
        then show ?thesis using True c o ih by (subst (1 2) offerLoop.simps) simp
      qed
    qed
  qed
qed

lemma chooseLoop_sound:
  "memo_ok m \<Longrightarrow> wellFormed st \<Longrightarrow> off < 3 \<Longrightarrow>
   fst (chooseLoop m st off cs)
     = (case find (forcing st off) cs of Some c \<Rightarrow> Num c | None \<Rightarrow> mathMax (remaining st))
   \<and> memo_ok (snd (chooseLoop m st off cs))"
proof (induction cs arbitrary: m)
  case Nil
  then show ?case by simp
next
  case (Cons c cs)
  let ?next = "placeCoin st off c"
  have wfn: "wellFormed ?next" using Cons.prems(2) by (rule wellFormed_placeCoin)
  show ?case
  proof (cases "turn ?next \<ge> 4")
    case True
    then have f: "forcing st off c = placerWins (sums ?next)" by (simp add: forcing_def Let_def)
    show ?thesis using True f Cons.IH[OF Cons.prems] Cons.prems(1) by (simp add: Let_def)
  next
    case False
    obtain allOk m' where ol: "offerLoop m ?next 0 = (allOk, m')"
      by (cases "offerLoop m ?next 0")
    have r: "(allOk \<longleftrightarrow> (\<forall>b \<in> {0, 1, 2}. canForceWin ?next b)) \<and> memo_ok m'"
      using memo_sound_all(3)[of m ?next 0] Cons.prems(1) wfn ol by simp
    then have f: "forcing st off c = allOk" using False by (simp add: forcing_def Let_def)
    show ?thesis using False f ol r Cons.IH[of m'] Cons.prems(2,3) by (simp add: Let_def)
  qed
qed

lemma memo_reach_ok: "memo_reach m \<Longrightarrow> memo_ok m"
proof (induction rule: memo_reach.induct)
  case cleared
  show ?case by (rule memo_ok_empty)
next
  case (solved m st offeredIdx)
  then show ?case using memo_sound_all(1)[of m st offeredIdx] by simp
next
  case (chosen m st offeredIdx)
  then show ?case using chooseLoop_sound[of m st offeredIdx "remaining st"]
    by (simp add: aiChooseCoinForOffer_def)
qed

lemma canForceWinGivenOffer_eq:
  "memo_reach m \<Longrightarrow> wellFormed st \<Longrightarrow> off < 3 \<Longrightarrow>
   fst (canForceWinGivenOffer m st off) = canForceWin st off"
  using memo_sound_all(1)[of m st off] memo_reach_ok by simp

lemma aiChoose_eq:
  "memo_reach m \<Longrightarrow> wellFormed st \<Longrightarrow> off < 3 \<Longrightarrow>
   fst (aiChooseCoinForOffer m st off)
     = (case find (forcing st off) (remaining st) of
          Some c \<Rightarrow> Num c | None \<Rightarrow> mathMax (remaining st))"
  using chooseLoop_sound[of m st off "remaining st"] memo_reach_ok
  by (simp add: aiChooseCoinForOffer_def)

lemma last_coin:
  assumes "turn st + length (remaining st) = 4" "c \<in> set (remaining st)"
    "turn (placeCoin st off c) \<ge> 4"
  shows "remaining (placeCoin st off c) = []" "turn (placeCoin st off c) = 4"
proof -
  have "length (remaining st) \<ge> 1" using assms(2) by (cases "remaining st") auto
  moreover have "turn st \<ge> 3" using assms(3) by (simp add: placeCoin_def)
  ultimately have l: "length (remaining st) = 1" "turn st = 3" using assms(1) by auto
  then have "remaining st = [c]" using assms(2) by (cases "remaining st") auto
  then show "remaining (placeCoin st off c) = []" by (simp add: placeCoin_def)
  show "turn (placeCoin st off c) = 4" using l by (simp add: placeCoin_def)
qed

lemma forcing_claim_form:
  assumes "memo_reach m'" "wellFormed st" "off < 3"
    "turn st + length (remaining st) = 4" "c \<in> set (remaining st)"
  shows "forcing st off c \<longleftrightarrow>
     (let next = placeCoin st off c in
        (turn next = 4 \<and> placerWins (sums next))
        \<or> (\<forall>b2 \<in> {0, 1, 2}. fst (canForceWinGivenOffer m' next b2)))"
proof -
  let ?next = "placeCoin st off c"
  have wfn: "wellFormed ?next" using assms(2) by (rule wellFormed_placeCoin)
  have eq: "fst (canForceWinGivenOffer m' ?next b2) = canForceWin ?next b2" if "b2 \<in> {0, 1, 2}" for b2
    using canForceWinGivenOffer_eq[OF assms(1) wfn, of b2] that by auto
  show ?thesis
  proof (cases "turn ?next \<ge> 4")
    case True
    note lc = last_coin[OF assms(4,5) True]
    have "canForceWin ?next b2 = placerWins (sums ?next)" for b2
      using lc(1) by (simp add: canForceWin_forcing)
    then show ?thesis using True lc(2) eq by (simp add: forcing_def Let_def)
  next
    case False
    then show ?thesis using eq by (simp add: forcing_def Let_def)
  qed
qed

subsection \<open>Terminal evaluation\<close>

lemma sortDesc3:
  "sortDesc [x, y, z] =
     (if x \<le> y then (if y \<le> z then [z, y, x] else if x \<le> z then [y, z, x] else [y, x, z])
      else (if x \<le> z then [z, x, y] else if y \<le> z then [x, z, y] else [x, y, z]))"
  by (auto simp: sortDesc_def)

lemma list3: "length xs = 3 \<Longrightarrow> \<exists>x y z. xs = [x, y, z]"
  by (cases xs; cases "tl xs"; cases "tl (tl xs)") auto

lemma ex_lt3: "(\<exists>i<3. P i) \<longleftrightarrow> P 0 \<or> P 1 \<or> P (2::nat)"
proof -
  have "i < 3 \<longleftrightarrow> i = 0 \<or> i = 1 \<or> i = 2" for i :: nat by auto
  then show ?thesis by auto
qed

lemma all_lt3: "(\<forall>i<3. P i) \<longleftrightarrow> P 0 \<and> P 1 \<and> P (2::nat)"
proof -
  have "i < 3 \<longleftrightarrow> i = 0 \<or> i = 1 \<or> i = 2" for i :: nat by auto
  then show ?thesis by auto
qed

lemma placerWins3:
  "placerWins [x, y, z] \<longleftrightarrow> (y < x \<and> z < x) \<or> (x < y \<and> z < y) \<or> (x < z \<and> y < z)"
  by (auto simp: placerWins_def sortDesc3 nth_js_def Let_def)

lemma placerWins_unique_max:
  assumes "length xs = 3"
  shows "placerWins xs \<longleftrightarrow> (\<exists>i<3. \<forall>j<3. j \<noteq> i \<longrightarrow> xs ! j < xs ! i)"
proof -
  obtain x y z where xs: "xs = [x, y, z]" using list3[OF assms] by blast
  show ?thesis unfolding xs placerWins3 by (simp add: ex_lt3 all_lt3) 
qed

lemma endGame_result:
  "resultText (endGame a) =
     Some (if placerWins (sums_g a) then PlacerWins else PresenterWins,
           nth_js (sortDesc (sums_g a)) 0, nth_js (sortDesc (sums_g a)) 1)"
  by (simp add: endGame_def placerWins_def Let_def)

text \<open>
  Claim C2. At the end of a game the result line names the placer as winner exactly when
  the sums, sorted in descending order \<open>s1 \<ge> s2 \<ge> s3\<close>, have \<open>s1 > s2\<close>, that is when
  one basket is strictly larger than both others; every tie for first place, the three-way
  tie included, names the presenter. The solver's own test \<open>placerWins\<close> is the same test.
  The sums 5, 5, 3 give the presenter, the sums 7, 5, 3 the placer.
\<close>

theorem terminal_evaluation:
  assumes "length (sums_g a) = 3"
  shows "(\<exists>s1 s2 s3. sortDesc (sums_g a) = [s1, s2, s3] \<and> s1 \<ge> s2 \<and> s2 \<ge> s3
            \<and> set [s1, s2, s3] = set (sums_g a)
            \<and> resultText (endGame a)
                = Some (if s1 > s2 then PlacerWins else PresenterWins, Some s1, Some s2)
            \<and> placerWins (sums_g a) = (s1 > s2)
            \<and> (s1 > s2 \<longleftrightarrow> (\<exists>i<3. \<forall>j<3. j \<noteq> i \<longrightarrow> sums_g a ! j < sums_g a ! i)))
         \<and> resultText (endGame (a\<lparr> sums_g := [5, 5, 3] \<rparr>))
               = Some (PresenterWins, Some 5, Some 5)
         \<and> resultText (endGame (a\<lparr> sums_g := [7, 5, 3] \<rparr>))
               = Some (PlacerWins, Some 7, Some 5)
         \<and> resultText (endGame (a\<lparr> sums_g := [4, 4, 4] \<rparr>))
               = Some (PresenterWins, Some 4, Some 4)"
proof -
  obtain x y z where xs: "sums_g a = [x, y, z]" using list3[OF assms] by blast
  have um: "placerWins (sums_g a) \<longleftrightarrow> (\<exists>i<3. \<forall>j<3. j \<noteq> i \<longrightarrow> sums_g a ! j < sums_g a ! i)"
    using placerWins_unique_max[OF assms] .
  obtain s1 s2 s3 where sd: "sortDesc (sums_g a) = [s1, s2, s3]" "s1 \<ge> s2" "s2 \<ge> s3"
      "set [s1, s2, s3] = set (sums_g a)"
    unfolding xs sortDesc3 by (cases "x \<le> y"; cases "y \<le> z"; cases "x \<le> z") auto
  have pw: "placerWins (sums_g a) = (s1 > s2)"
    by (simp add: placerWins_def sd Let_def nth_js_def)
  have r: "resultText (endGame a)
      = Some (if s1 > s2 then PlacerWins else PresenterWins, Some s1, Some s2)"
    by (simp add: endGame_result pw sd nth_js_def)
  have e1: "resultText (endGame (a\<lparr> sums_g := [5, 5, 3] \<rparr>)) = Some (PresenterWins, Some 5, Some 5)"
    by (simp add: endGame_result placerWins3 sortDesc3 nth_js_def)
  have e2: "resultText (endGame (a\<lparr> sums_g := [7, 5, 3] \<rparr>)) = Some (PlacerWins, Some 7, Some 5)"
    by (simp add: endGame_result placerWins3 sortDesc3 nth_js_def)
  have e3: "resultText (endGame (a\<lparr> sums_g := [4, 4, 4] \<rparr>)) = Some (PresenterWins, Some 4, Some 4)"
    by (simp add: endGame_result placerWins3 sortDesc3 nth_js_def)
  show ?thesis using sd pw r um e1 e2 e3 by blast
qed

theorem terminal_evaluation_witness:
  "length (sums_g (initialApp False\<lparr> sums_g := [2, 7, 1] \<rparr>)) = 3
   \<and> resultText (endGame (initialApp False\<lparr> sums_g := [2, 7, 1] \<rparr>))
       = Some (PlacerWins, Some 7, Some 2)"
proof -
  have l: "length (sums_g (initialApp False\<lparr> sums_g := [2, 7, 1] \<rparr>)) = 3" by simp
  have sd: "sortDesc [2, 7, 1] = [7, 2, 1]" by (simp add: sortDesc3)
  from terminal_evaluation[OF l] show ?thesis using l sd by auto
qed

subsection \<open>What the search decides\<close>

text \<open>
  Claim C1. In a state that still has coins, with basket \<open>offeredIdx\<close> offered, the search
  returns true exactly when some remaining coin, placed into that basket, either ends the
  game with a win of the placer or leaves a state in which the search returns true for each
  of the three baskets the presenter may offer next; it returns false exactly when there is
  no such coin. The cache may be any cache the program can hold.
\<close>

theorem canForceWin_characterisation:
  assumes "memo_reach m" "memo_reach m'" "wellFormed st" "offeredIdx < 3"
    and "remaining st \<noteq> []" "turn st + length (remaining st) = 4"
  shows "fst (canForceWinGivenOffer m st offeredIdx) \<longleftrightarrow>
     (\<exists>c \<in> set (remaining st).
        let next = placeCoin st offeredIdx c in
          (turn next = 4 \<and> placerWins (sums next))
          \<or> (\<forall>b2 \<in> {0, 1, 2}. fst (canForceWinGivenOffer m' next b2)))"
proof -
  have "fst (canForceWinGivenOffer m st offeredIdx)
      \<longleftrightarrow> (\<exists>c \<in> set (remaining st). forcing st offeredIdx c)"
    using canForceWinGivenOffer_eq[OF assms(1,3,4)] assms(5) by (simp add: canForceWin_forcing)
  also have "\<dots> \<longleftrightarrow> (\<exists>c \<in> set (remaining st).
        let next = placeCoin st offeredIdx c in
          (turn next = 4 \<and> placerWins (sums next))
          \<or> (\<forall>b2 \<in> {0, 1, 2}. fst (canForceWinGivenOffer m' next b2)))"
    using forcing_claim_form[OF assms(2,3,4,6)] by (intro bex_cong refl) 
  finally show ?thesis .
qed

theorem canForceWin_characterisation_witness:
  "fst (canForceWinGivenOffer Map.empty \<lparr>sums = [1, 0, 5], remaining = [4], turn = 3\<rparr> 2) = True
   \<and> fst (canForceWinGivenOffer Map.empty \<lparr>sums = [1, 0, 5], remaining = [4], turn = 3\<rparr> 0) = False"
proof -
  let ?st = "\<lparr>sums = [1, 0, 5], remaining = [4], turn = 3\<rparr>"
  have wf: "wellFormed ?st" by (simp add: wellFormed_def)
  have ne: "remaining ?st \<noteq> []" and t: "turn ?st + length (remaining ?st) = 4" by simp_all
  have e: "fst (canForceWinGivenOffer Map.empty \<lparr>sums = [5, 0, 5], remaining = [], turn = 4\<rparr> b) = False" for b
    by (simp add: canForceWinGivenOffer.simps placerWins3 Let_def)
  have l2: "(2::nat) < 3" and l0: "(0::nat) < 3" by simp_all
  have a: "fst (canForceWinGivenOffer Map.empty ?st 2) = True"
    using canForceWin_characterisation[OF memo_reach.cleared memo_reach.cleared wf l2 ne t]
    by (simp add: placeCoin_def addCoin_def placerWins3)
  have b: "fst (canForceWinGivenOffer Map.empty ?st 0) = False"
    using canForceWin_characterisation[OF memo_reach.cleared memo_reach.cleared wf l0 ne t]
    by (simp add: placeCoin_def addCoin_def placerWins3 e)
  show ?thesis using a b by simp
qed

lemma opening_forcing: "forcing \<lparr>sums = [0, 0, 0], remaining = [1, 2, 3, 4], turn = 0\<rparr> 0 1"
  by code_simp

text \<open>
  Claim C3. With four coins, from the empty baskets and basket 0 offered, the placer can
  force a win: whatever the cache holds, the chooser returns coin 1, and after coin 1 lies
  in basket 0 the search returns true for each of the three next offers.
\<close>

theorem opening_is_solvable:
  assumes "memo_reach m" "memo_reach m'"
  shows "fst (canForceWinGivenOffer m \<lparr>sums = [0, 0, 0], remaining = [1, 2, 3, 4], turn = 0\<rparr> 0)
    \<and> fst (aiChooseCoinForOffer m \<lparr>sums = [0, 0, 0], remaining = [1, 2, 3, 4], turn = 0\<rparr> 0)
        = Num 1
    \<and> (\<forall>b \<in> {0, 1, 2}.
          fst (canForceWinGivenOffer m'
                 (placeCoin \<lparr>sums = [0, 0, 0], remaining = [1, 2, 3, 4], turn = 0\<rparr> 0 1) b))"
proof -
  let ?st = "\<lparr>sums = [0, 0, 0], remaining = [1, 2, 3, 4], turn = 0\<rparr>"
  have wf: "wellFormed ?st" by (simp add: wellFormed_def)
  have l0: "(0::nat) < 3" by simp
  have t: "turn ?st + length (remaining ?st) = 4" by simp
  have c1: "1 \<in> set (remaining ?st)" by simp
  have a: "fst (canForceWinGivenOffer m ?st 0)"
    using canForceWinGivenOffer_eq[OF assms(1) wf l0] opening_forcing
    by (simp add: canForceWin_forcing)
  have b: "fst (aiChooseCoinForOffer m ?st 0) = Num 1"
    using aiChoose_eq[OF assms(1) wf l0] opening_forcing by simp
  have "\<not> turn (placeCoin ?st 0 1) \<ge> 4" by (simp add: placeCoin_def)
  then have "\<forall>b \<in> {0, 1, 2}. canForceWin (placeCoin ?st 0 1) b"
    using opening_forcing by (simp add: forcing_def Let_def)
  moreover have "fst (canForceWinGivenOffer m' (placeCoin ?st 0 1) b)
      = canForceWin (placeCoin ?st 0 1) b" if "b \<in> {0, 1, 2}" for b
    using canForceWinGivenOffer_eq[OF assms(2) wellFormed_placeCoin[OF wf], of b 0 1] that by auto
  ultimately have c: "\<forall>b \<in> {0, 1, 2}. fst (canForceWinGivenOffer m' (placeCoin ?st 0 1) b)"
    by blast
  show ?thesis using a b c by blast
qed

theorem opening_is_solvable_witness:
  "fst (aiChooseCoinForOffer Map.empty \<lparr>sums = [0, 0, 0], remaining = [1, 2, 3, 4], turn = 0\<rparr> 0)
      = Num 1
   \<and> fst (canForceWinGivenOffer Map.empty \<lparr>sums = [1, 0, 0], remaining = [2, 3, 4], turn = 1\<rparr> 0)
   \<and> fst (canForceWinGivenOffer Map.empty \<lparr>sums = [1, 0, 0], remaining = [2, 3, 4], turn = 1\<rparr> 1)
   \<and> fst (canForceWinGivenOffer Map.empty \<lparr>sums = [1, 0, 0], remaining = [2, 3, 4], turn = 1\<rparr> 2)"
proof -
  have p: "placeCoin \<lparr>sums = [0, 0, 0], remaining = [1, 2, 3, 4], turn = 0\<rparr> 0 1
      = \<lparr>sums = [1, 0, 0], remaining = [2, 3, 4], turn = 1\<rparr>"
    by (simp add: placeCoin_def addCoin_def)
  from opening_is_solvable[OF memo_reach.cleared memo_reach.cleared] show ?thesis
    unfolding p by simp
qed

lemma mathMax_Max: "xs \<noteq> [] \<Longrightarrow> mathMax xs = Num (Max (set xs))"
proof (induction xs)
  case Nil
  then show ?case by simp
next
  case (Cons x xs)
  show ?case
  proof (cases "xs = []")
    case True
    then show ?thesis by simp
  next
    case False
    then show ?thesis using Cons.IH by (simp add: max.commute)
  qed
qed

lemma find_sorted_Min:
  "sorted xs \<Longrightarrow> find P xs = Some c \<Longrightarrow> c = Min {x \<in> set xs. P x}"
proof (induction xs)
  case Nil
  then show ?case by simp
next
  case (Cons x xs)
  show ?case
  proof (cases "P x")
    case True
    then have "c = x" using Cons.prems(2) by simp
    moreover have "Min {y \<in> set (x # xs). P y} = x"
    proof (rule Min_eqI)
      show "finite {y \<in> set (x # xs). P y}" by simp
      show "x \<le> y" if "y \<in> {y \<in> set (x # xs). P y}" for y
        using that Cons.prems(1) by auto
      show "x \<in> {y \<in> set (x # xs). P y}" using True by simp
    qed
    ultimately show ?thesis by simp
  next
    case False
    then have "{y \<in> set (x # xs). P y} = {y \<in> set xs. P y}" by auto
    then show ?thesis using Cons False by simp
  qed
qed

lemma ev3: "fst (canForceWinGivenOffer Map.empty \<lparr>sums = [1, 2, 3], remaining = [4], turn = 3\<rparr> 0)"
  "fst (canForceWinGivenOffer Map.empty \<lparr>sums = [1, 2, 3], remaining = [4], turn = 3\<rparr> (Suc 0))"
  "fst (canForceWinGivenOffer Map.empty \<lparr>sums = [1, 2, 3], remaining = [4], turn = 3\<rparr> 2)"
  by code_simp+

text \<open>
  Claim C4. In a state that still has coins the chooser returns the first coin, in the
  order of the array \<open>remaining\<close>, whose placement into the offered basket ends the game
  with a win of the placer or leaves a state in which the search returns true for all three
  next offers; the array of a game is in increasing order, and then this is the least such
  coin. When no coin qualifies, the chooser returns the largest remaining coin.
\<close>

theorem chooseCoin_first_forcing:
  assumes "memo_reach m" "memo_reach m'" "wellFormed st" "offeredIdx < 3"
    and "remaining st \<noteq> []" "turn st + length (remaining st) = 4"
  shows "fst (aiChooseCoinForOffer m st offeredIdx)
      = (case find (\<lambda>c. let next = placeCoin st offeredIdx c in
                      (turn next = 4 \<and> placerWins (sums next))
                      \<or> (\<forall>b2 \<in> {0, 1, 2}. fst (canForceWinGivenOffer m' next b2)))
                (remaining st) of
           Some c \<Rightarrow> Num c
         | None \<Rightarrow> Num (Max (set (remaining st))))
    \<and> (sorted (remaining st) \<longrightarrow>
        fst (aiChooseCoinForOffer m st offeredIdx)
          = (let F = {c \<in> set (remaining st).
                        let next = placeCoin st offeredIdx c in
                        (turn next = 4 \<and> placerWins (sums next))
                        \<or> (\<forall>b2 \<in> {0, 1, 2}. fst (canForceWinGivenOffer m' next b2))}
             in if F = {} then Num (Max (set (remaining st))) else Num (Min F)))"
proof -
  define P where "P = (\<lambda>c. let next = placeCoin st offeredIdx c in
                      (turn next = 4 \<and> placerWins (sums next))
                      \<or> (\<forall>b2 \<in> {0, 1, 2}. fst (canForceWinGivenOffer m' next b2)))"
  have "forcing st offeredIdx c = P c" if "c \<in> set (remaining st)" for c
    unfolding P_def using forcing_claim_form[OF assms(2,3,4,6) that] .
  then have f: "find (forcing st offeredIdx) (remaining st) = find P (remaining st)"
    by (intro find_cong refl)
  have 1: "fst (aiChooseCoinForOffer m st offeredIdx)
      = (case find P (remaining st) of
           Some c \<Rightarrow> Num c | None \<Rightarrow> Num (Max (set (remaining st))))"
    unfolding aiChoose_eq[OF assms(1,3,4)] f mathMax_Max[OF assms(5)] ..
  have 2: "fst (aiChooseCoinForOffer m st offeredIdx)
          = (let F = {c \<in> set (remaining st). P c}
             in if F = {} then Num (Max (set (remaining st))) else Num (Min F))"
    if s: "sorted (remaining st)"
  proof (cases "find P (remaining st)")
    case None
    then have "{c \<in> set (remaining st). P c} = {}" by (auto simp: find_None_iff)
    then show ?thesis unfolding 1 None Let_def by simp
  next
    case (Some c)
    then have "c \<in> set (remaining st)" "P c" by (auto simp: find_Some_iff)
    then have ne: "{c \<in> set (remaining st). P c} \<noteq> {}" by blast
    have "c = Min {c \<in> set (remaining st). P c}" by (rule find_sorted_Min[OF s Some])
    then show ?thesis unfolding 1 Some Let_def using ne by auto
  qed
  show ?thesis using 1 2 unfolding P_def by blast
qed

theorem chooseCoin_first_forcing_witness:
  "fst (aiChooseCoinForOffer Map.empty \<lparr>sums = [1, 2, 0], remaining = [3, 4], turn = 2\<rparr> 2) = Num 3"
proof -
  let ?st = "\<lparr>sums = [1, 2, 0], remaining = [3, 4], turn = 2\<rparr>"
  have wf: "wellFormed ?st" by (simp add: wellFormed_def)
  have l: "(2::nat) < 3" by simp
  have ne: "remaining ?st \<noteq> []" and t: "turn ?st + length (remaining ?st) = 4" by simp_all
  from chooseCoin_first_forcing[OF memo_reach.cleared memo_reach.cleared wf l ne t]
  show ?thesis by (simp add: placeCoin_def addCoin_def ev3)
qed

text \<open>
  Claim C5. The results of the search and of the chooser depend on the sums, the remaining
  coins, the turn and the offered basket only: with any two caches the program can hold,
  among them the empty cache after \<open>memo.clear()\<close>, both functions return the same, and
  an entry the cache holds for the key of a state is the result the search computes for it
  from the empty cache.
\<close>

theorem memo_transparent:
  assumes "memo_reach m" "memo_reach m'" "wellFormed st" "offeredIdx < 3"
  shows "fst (canForceWinGivenOffer m st offeredIdx) = fst (canForceWinGivenOffer m' st offeredIdx)
    \<and> fst (aiChooseCoinForOffer m st offeredIdx) = fst (aiChooseCoinForOffer m' st offeredIdx)
    \<and> fst (canForceWinGivenOffer m st offeredIdx) = fst (canForceWinGivenOffer Map.empty st offeredIdx)
    \<and> fst (aiChooseCoinForOffer m st offeredIdx) = fst (aiChooseCoinForOffer Map.empty st offeredIdx)
    \<and> (m (stateKey (sums st) (remaining st) (turn st) offeredIdx) = None
       \<or> m (stateKey (sums st) (remaining st) (turn st) offeredIdx)
           = Some (fst (canForceWinGivenOffer Map.empty st offeredIdx)))"
proof -
  note c = canForceWinGivenOffer_eq[OF _ assms(3,4)]
  note a = aiChoose_eq[OF _ assms(3,4)]
  have e: "memo_reach Map.empty" by (rule memo_reach.cleared)
  have k: "m (stateKey (sums st) (remaining st) (turn st) offeredIdx) = None
       \<or> m (stateKey (sums st) (remaining st) (turn st) offeredIdx)
           = Some (fst (canForceWinGivenOffer Map.empty st offeredIdx))"
  proof (cases "m (stateKey (sums st) (remaining st) (turn st) offeredIdx)")
    case None
    then show ?thesis by simp
  next
    case (Some v)
    then have "v = canForceWin st offeredIdx"
      using memo_reach_ok[OF assms(1)] assms(3,4) unfolding memo_ok_def by blast
    then show ?thesis using Some c[OF e] by simp
  qed
  show ?thesis using c[OF assms(1)] c[OF assms(2)] c[OF e] a[OF assms(1)] a[OF assms(2)] a[OF e] k
    by simp
qed

theorem memo_transparent_witness:
  "fst (canForceWinGivenOffer
          (snd (canForceWinGivenOffer Map.empty \<lparr>sums = [1, 0, 5], remaining = [4], turn = 3\<rparr> 0))
          \<lparr>sums = [1, 0, 5], remaining = [4], turn = 3\<rparr> 0)
     = fst (canForceWinGivenOffer Map.empty \<lparr>sums = [1, 0, 5], remaining = [4], turn = 3\<rparr> 0)
   \<and> fst (aiChooseCoinForOffer
          (snd (canForceWinGivenOffer Map.empty \<lparr>sums = [1, 0, 5], remaining = [4], turn = 3\<rparr> 0))
          \<lparr>sums = [1, 0, 5], remaining = [4], turn = 3\<rparr> 0)
     = fst (aiChooseCoinForOffer Map.empty \<lparr>sums = [1, 0, 5], remaining = [4], turn = 3\<rparr> 0)"
proof -
  let ?st = "\<lparr>sums = [1, 0, 5], remaining = [4], turn = 3\<rparr>"
  have wf: "wellFormed ?st" by (simp add: wellFormed_def)
  have l0: "(0::nat) < 3" by simp
  have r: "memo_reach (snd (canForceWinGivenOffer Map.empty ?st 0))"
    by (rule memo_reach.solved[OF memo_reach.cleared wf l0])
  from memo_transparent[OF r memo_reach.cleared wf l0] show ?thesis by simp
qed

text \<open>
  The bound on the coins in \<open>wellFormed\<close> is needed. A coin above 32 is outside the data
  model, and \<open>1 << (c-1)\<close> maps coin 34 to the bit of coin 2: the two states below get the
  same key although the search answers differently, so after a call on the one the cache
  answers wrongly on the other.
\<close>

lemma stateKey_wraps_beyond_32:
  "stateKey [2, 0, 0] [2] 3 1 = stateKey [2, 0, 0] [34] 3 1
   \<and> \<not> canForceWin \<lparr>sums = [2, 0, 0], remaining = [2], turn = 3\<rparr> 1
   \<and> canForceWin \<lparr>sums = [2, 0, 0], remaining = [34], turn = 3\<rparr> 1
   \<and> fst (canForceWinGivenOffer
            (snd (canForceWinGivenOffer Map.empty \<lparr>sums = [2, 0, 0], remaining = [34], turn = 3\<rparr> 1))
            \<lparr>sums = [2, 0, 0], remaining = [2], turn = 3\<rparr> 1)"
  by code_simp

text \<open>
  Claim C6, as the code has it. On a state with no coin left the search does not fail: it
  returns the terminal evaluation of the sums, true exactly when the largest sum exceeds
  the second largest, and after the call the cache holds that boolean under the key of the
  state.
\<close>

theorem terminal_state_is_evaluated:
  assumes "memo_reach m" "wellFormed st" "offeredIdx < 3" "remaining st = []"
  shows "fst (canForceWinGivenOffer m st offeredIdx) = placerWins (sums st)
    \<and> snd (canForceWinGivenOffer m st offeredIdx)
          (stateKey (sums st) (remaining st) (turn st) offeredIdx)
        = Some (placerWins (sums st))"
proof -
  let ?k = "stateKey (sums st) (remaining st) (turn st) offeredIdx"
  have cf: "canForceWin st offeredIdx = placerWins (sums st)"
    using assms(4) by (simp add: canForceWin_forcing)
  have 1: "fst (canForceWinGivenOffer m st offeredIdx) = placerWins (sums st)"
    using canForceWinGivenOffer_eq[OF assms(1,2,3)] cf by simp
  have 2: "snd (canForceWinGivenOffer m st offeredIdx) ?k = Some (placerWins (sums st))"
  proof (cases "m ?k")
    case None
    then show ?thesis using assms(4) by (simp add: canForceWinGivenOffer.simps Let_def)
  next
    case (Some v)
    then have "v = canForceWin st offeredIdx"
      using memo_reach_ok[OF assms(1)] assms(2,3) unfolding memo_ok_def by blast
    then show ?thesis using Some cf by (simp add: canForceWinGivenOffer.simps)
  qed
  show ?thesis using 1 2 by simp
qed

theorem terminal_state_is_evaluated_witness:
  "fst (canForceWinGivenOffer Map.empty \<lparr>sums = [5, 5, 0], remaining = [], turn = 4\<rparr> 0) = False
   \<and> snd (canForceWinGivenOffer Map.empty \<lparr>sums = [5, 5, 0], remaining = [], turn = 4\<rparr> 0)
         (stateKey [5, 5, 0] [] 4 0) = Some False"
proof -
  let ?st = "\<lparr>sums = [5, 5, 0], remaining = [], turn = 4\<rparr>"
  have wf: "wellFormed ?st" by (simp add: wellFormed_def)
  have l0: "(0::nat) < 3" by simp
  have e: "remaining ?st = []" by simp
  show ?thesis
    using terminal_state_is_evaluated[OF memo_reach.cleared wf l0 e] by (simp add: placerWins3)
qed

text \<open>
  Claim C6 as stated fails: called on the finished game with the sums 7, 3, 0, the search
  returns the boolean \<open>True\<close> and stores it under the key of that state.
\<close>

theorem terminal_state_counterexample:
  "canForceWinGivenOffer Map.empty \<lparr>sums = [7, 3, 0], remaining = [], turn = 4\<rparr> 0
     = (True, [stateKey [7, 3, 0] [] 4 0 \<mapsto> True])"
  by (simp add: canForceWinGivenOffer.simps placerWins3 Let_def stateKey_def nth_js_def maskOf_def)

section \<open>Properties of the two games\<close>

subsection \<open>The invariant of the single-page game\<close>

lemma filter_neq_id: "c \<notin> set xs \<Longrightarrow> filter (\<lambda>x. x \<noteq> c) xs = xs"
  by (induction xs) auto

lemma filter_neq_length:
  "distinct xs \<Longrightarrow> c \<in> set xs \<Longrightarrow> length (filter (\<lambda>x. x \<noteq> c) xs) + 1 = length xs"
  by (induction xs) (auto simp: filter_neq_id)

lemma filter_neq_sum:
  "distinct xs \<Longrightarrow> c \<in> set xs \<Longrightarrow> sum_list (filter (\<lambda>x. x \<noteq> c) xs) + c = sum_list (xs :: int list)"
  by (induction xs) (auto simp: filter_neq_id)

lemma filter_neq_remove1:
  "distinct xs \<Longrightarrow> filter (\<lambda>x. x \<noteq> c) xs = remove1 c xs"
  by (induction xs) (auto simp: filter_neq_id)

lemma sum_list_update3:
  "length xs = 3 \<Longrightarrow> idx < 3 \<Longrightarrow> sum_list (xs[idx := xs ! idx + c]) = sum_list xs + (c :: int)"
proof -
  assume l: "length xs = 3" and i: "idx < 3"
  obtain x y z where xs: "xs = [x, y, z]" using list3[OF l] by blast
  have "idx = 0 \<or> idx = 1 \<or> idx = 2" using i by auto
  then show ?thesis unfolding xs by auto
qed

lemma map_sum_list_update:
  "idx < length bs \<Longrightarrow>
   map sum_list (bs[idx := bs ! idx @ [c]]) = addCoin (map sum_list bs) idx (c :: int)"
  by (simp add: addCoin_def map_update)

lemma appInv_initialApp: "appInv (initialApp ai)"
  by (simp add: appInv_def initialApp_def memo_reach.cleared)

lemma appInv_newGameClick:
  assumes "appInv a"
  shows "appInv (newGameClick a)"
  using assms by (simp add: appInv_def newGameClick_def newGame_def memo_reach.cleared)

lemma appInv_aiMode: "appInv a \<Longrightarrow> appInv (a\<lparr> aiMode := ai \<rparr>)"
  by (simp add: appInv_def)

lemma appInv_wellFormed:
  assumes "appInv a"
  shows "wellFormed \<lparr> sums = sums_g a, remaining = remainingCoins a, turn = turn_g a \<rparr>"
  using assms by (auto simp: appInv_def wellFormed_def)

lemma appInv_offerBasket:
  assumes "appInv a" "idx < 3"
  shows "appInv (offerBasket idx a)"
proof (cases "awaitingOffer a")
  case False
  then show ?thesis using assms by (simp add: offerBasket_def)
next
  case True
  let ?a1 = "a\<lparr> currentOffered_g := Some idx, awaitingOffer := False \<rparr>"
  have i1: "appInv ?a1" using assms True unfolding appInv_def by simp
  show ?thesis
  proof (cases "aiMode a")
    case F: False
    then show ?thesis using True i1 by (simp add: offerBasket_def Let_def)
  next
    case T: True
    let ?st = "\<lparr> sums = sums_g a, remaining = remainingCoins a, turn = turn_g a \<rparr>"
    obtain best m' where ch: "aiChooseCoinForOffer (memo_g a) ?st idx = (best, m')"
      by (cases "aiChooseCoinForOffer (memo_g a) ?st idx")
    have "memo_reach (memo_g a)" using assms(1) by (simp add: appInv_def)
    from memo_reach.chosen[OF this appInv_wellFormed[OF assms(1)] assms(2)]
    have mr: "memo_reach m'" using ch by simp
    have e: "offerBasket idx a = ?a1\<lparr> memo_g := m', timers := timers a @ [(best, idx)] \<rparr>"
      using True T ch by (simp add: offerBasket_def Let_def)
    show ?thesis unfolding e using i1 mr assms(2) unfolding appInv_def by simp
  qed
qed

lemma doPlace_accepted:
  assumes "\<not> awaitingOffer a" "c \<in> set (remainingCoins a)"
  shows "doPlace (Num c) idx a =
     (let a1 = a\<lparr> baskets_g := (baskets_g a)[idx := baskets_g a ! idx @ [c]],
                   sums_g := addCoin (sums_g a) idx c,
                   remainingCoins := filter (\<lambda>x. x \<noteq> c) (remainingCoins a),
                   movesList := movesList a @ [(turn_g a + 1, idx + 1, c)],
                   turn_g := turn_g a + 1,
                   currentOffered_g := None \<rparr>
      in if turn_g a1 \<ge> 4 then endGame a1 else a1\<lparr> awaitingOffer := True \<rparr>)"
  using assms by (simp add: doPlace_def)

lemma doPlace_rejected:
  "awaitingOffer a \<Longrightarrow> doPlace v idx a = a"
  "c \<notin> set (remainingCoins a) \<Longrightarrow> doPlace (Num c) idx a = a"
  "doPlace NegInfinity idx a = a"
  by (simp_all add: doPlace_def)

lemma endGame_fields:
  "baskets_g (endGame a) = baskets_g a" "sums_g (endGame a) = sums_g a"
  "remainingCoins (endGame a) = remainingCoins a" "turn_g (endGame a) = turn_g a"
  "awaitingOffer (endGame a) = awaitingOffer a"
  "currentOffered_g (endGame a) = currentOffered_g a"
  "movesList (endGame a) = movesList a" "memo_g (endGame a) = memo_g a"
  "aiMode (endGame a) = aiMode a" "timers (endGame a) = timers a"
  "resultText (endGame a) \<noteq> None"
  by (simp_all add: endGame_def Let_def)

lemma appInv_doPlace:
  assumes "appInv a" "idx < 3"
  shows "appInv (doPlace v idx a)"
proof (cases "awaitingOffer a \<or> v = NegInfinity \<or> (\<exists>c. v = Num c \<and> c \<notin> set (remainingCoins a))")
  case True
  then have "doPlace v idx a = a" using doPlace_rejected by blast
  then show ?thesis using assms(1) by simp
next
  case False
  then obtain c where v: "v = Num c" and c: "c \<in> set (remainingCoins a)" and aw: "\<not> awaitingOffer a"
    by (cases v) auto
  let ?a1 = "a\<lparr> baskets_g := (baskets_g a)[idx := baskets_g a ! idx @ [c]],
                   sums_g := addCoin (sums_g a) idx c,
                   remainingCoins := filter (\<lambda>x. x \<noteq> c) (remainingCoins a),
                   movesList := movesList a @ [(turn_g a + 1, idx + 1, c)],
                   turn_g := turn_g a + 1,
                   currentOffered_g := None \<rparr>"
  note inv = assms(1)[unfolded appInv_def]
  have l: "length (sums_g a) = 3" "length (baskets_g a) = 3" using inv by simp_all
  have d: "distinct (remainingCoins a)" using inv by simp
  have len: "length (filter (\<lambda>x. x \<noteq> c) (remainingCoins a)) + 1 = length (remainingCoins a)"
    using filter_neq_length[OF d c] .
  have t3: "turn_g a \<le> 3" using inv len by simp
  have tl: "turn_g a + 1 + length (filter (\<lambda>x. x \<noteq> c) (remainingCoins a)) = 4"
    using inv len by simp
  have sm: "map sum_list ((baskets_g a)[idx := baskets_g a ! idx @ [c]]) = addCoin (sums_g a) idx c"
    using map_sum_list_update[of idx "baskets_g a" c] inv assms(2) by simp
  have ten: "sum_list (addCoin (sums_g a) idx c)
      + sum_list (filter (\<lambda>x. x \<noteq> c) (remainingCoins a)) = 10"
    using sum_list_update3[OF l(1) assms(2), of c] filter_neq_sum[OF d c] inv
    by (simp add: addCoin_def)
  have core: "length (sums_g ?a1) = 3 \<and> length (baskets_g ?a1) = 3
     \<and> turn_g ?a1 + length (remainingCoins ?a1) = 4
     \<and> distinct (remainingCoins ?a1) \<and> sorted (remainingCoins ?a1)
     \<and> set (remainingCoins ?a1) \<subseteq> {1..4}
     \<and> map sum_list (baskets_g ?a1) = sums_g ?a1
     \<and> sum_list (sums_g ?a1) + sum_list (remainingCoins ?a1) = 10
     \<and> (\<forall>t \<in> set (timers ?a1). snd t < 3)
     \<and> memo_reach (memo_g ?a1)"
    using inv tl sm ten l by (auto simp: addCoin_def sorted_wrt_filter)
  show ?thesis
  proof (cases "turn_g a + 1 \<ge> 4")
    case True
    then have e: "doPlace v idx a = endGame ?a1" unfolding v doPlace_accepted[OF aw c] by simp
    have t4: "turn_g a + 1 = 4" using True t3 by simp
    show ?thesis unfolding e appInv_def endGame_fields(1-10) using core aw t4
      by (auto simp add: endGame_result)
  next
    case False
    then have e: "doPlace v idx a = ?a1\<lparr> awaitingOffer := True \<rparr>"
      unfolding v doPlace_accepted[OF aw c] by simp
    have "resultText a = None" using inv False by simp
    then show ?thesis unfolding e appInv_def using core False by simp
  qed
qed

lemma appInv_coinClick: "appInv a \<Longrightarrow> appInv (coinClick val a)"
  by (cases "currentOffered_g a") (auto simp: coinClick_def appInv_doPlace appInv_def[of a])

lemma appInv_timerFires:
  assumes "appInv a"
  shows "appInv (timerFires a)"
proof (cases "timers a")
  case Nil
  then show ?thesis using assms by (simp add: timerFires_def)
next
  case (Cons t ts)
  obtain best idx where t: "t = (best, idx)" by (cases t)
  have "idx < 3" using assms Cons t by (auto simp: appInv_def)
  moreover have "appInv (a\<lparr> timers := ts \<rparr>)" using assms Cons by (simp add: appInv_def)
  ultimately show ?thesis using Cons t by (simp add: timerFires_def appInv_doPlace)
qed

lemma reachableApp_inv: "reachableApp a \<Longrightarrow> appInv a"
  by (induction rule: reachableApp.induct)
     (simp_all add: appInv_initialApp appInv_offerBasket appInv_coinClick appInv_newGameClick
                    appInv_timerFires appInv_aiMode)

lemma doPlace_effect:
  assumes "appInv a" "\<not> awaitingOffer a" "c \<in> set (remainingCoins a)"
  shows "turn_g (doPlace (Num c) idx a) = turn_g a + 1"
    and "remainingCoins (doPlace (Num c) idx a) = remove1 c (remainingCoins a)"
    and "sums_g (doPlace (Num c) idx a) = (sums_g a)[idx := sums_g a ! idx + c]"
    and "baskets_g (doPlace (Num c) idx a) = (baskets_g a)[idx := baskets_g a ! idx @ [c]]"
    and "currentOffered_g (doPlace (Num c) idx a) = None"
proof -
  have d: "distinct (remainingCoins a)" using assms(1) by (simp add: appInv_def)
  note e = doPlace_accepted[OF assms(2,3), of idx]
  show "turn_g (doPlace (Num c) idx a) = turn_g a + 1"
    unfolding e by (simp add: Let_def endGame_fields)
  show "remainingCoins (doPlace (Num c) idx a) = remove1 c (remainingCoins a)"
    unfolding e by (simp add: Let_def endGame_fields filter_neq_remove1[OF d])
  show "sums_g (doPlace (Num c) idx a) = (sums_g a)[idx := sums_g a ! idx + c]"
    unfolding e by (simp add: Let_def endGame_fields addCoin_def)
  show "baskets_g (doPlace (Num c) idx a) = (baskets_g a)[idx := baskets_g a ! idx @ [c]]"
    unfolding e by (simp add: Let_def endGame_fields)
  show "currentOffered_g (doPlace (Num c) idx a) = None"
    unfolding e by (simp add: Let_def endGame_fields)
qed

lemma sum_list_concat_map: "sum_list (concat xss) = sum_list (map sum_list (xss :: int list list))"
  by (induction xss) simp_all

lemma appInv_facts:
  assumes "appInv a"
  shows "turn_g a = 4 - length (remainingCoins a)" "length (remainingCoins a) \<le> 4"
    and "sum_list (sums_g a) = sum_list (concat (baskets_g a))"
    and "sum_list (sums_g a) + sum_list (remainingCoins a) = 10"
    and "resultText a \<noteq> None \<longleftrightarrow> turn_g a = 4"
    and "turn_g a = 4 \<longleftrightarrow> remainingCoins a = []"
proof -
  note inv = assms[unfolded appInv_def]
  have tl: "turn_g a + length (remainingCoins a) = 4" using inv by blast
  have ms: "map sum_list (baskets_g a) = sums_g a" using inv by blast
  have rt: "resultText a = None \<longleftrightarrow> turn_g a < 4" using inv by blast
  show "turn_g a = 4 - length (remainingCoins a)" "length (remainingCoins a) \<le> 4"
    using tl by arith+
  have "sum_list (concat (baskets_g a)) = sum_list (map sum_list (baskets_g a))"
    by (rule sum_list_concat_map)
  then show "sum_list (sums_g a) = sum_list (concat (baskets_g a))" using ms by simp
  show "sum_list (sums_g a) + sum_list (remainingCoins a) = 10" using inv by blast
  have "turn_g a \<le> 4" using tl by arith
  then show "resultText a \<noteq> None \<longleftrightarrow> turn_g a = 4" using rt by auto
  show "turn_g a = 4 \<longleftrightarrow> remainingCoins a = []" using tl by auto
qed

text \<open>
  The bookkeeping of the data model holds in every state the single-page game can reach:
  \<open>turn = 4 - |remaining|\<close>, the sum of the three sums equals the sum of the coins lying
  in the baskets (and 10 minus the remaining coins), and the result is shown exactly when
  \<open>turn = 4\<close>, which is exactly when no coin remains. An accepted placement moves exactly
  one coin from the remaining coins into the basket handed to \<open>doPlace\<close>, adds its value
  to that basket's sum, increments \<open>turn\<close> and clears the offer; a click on a coin button
  hands over the offered basket.
\<close>

lemma game_state_invariant:
  assumes "reachableApp a"
  shows "turn_g a = 4 - length (remainingCoins a) \<and> length (remainingCoins a) \<le> 4
    \<and> sum_list (sums_g a) = sum_list (concat (baskets_g a))
    \<and> sum_list (sums_g a) + sum_list (remainingCoins a) = 10
    \<and> (resultText a \<noteq> None \<longleftrightarrow> turn_g a = 4)
    \<and> (turn_g a = 4 \<longleftrightarrow> remainingCoins a = [])
    \<and> (\<forall>c idx. \<not> awaitingOffer a \<longrightarrow> c \<in> set (remainingCoins a) \<longrightarrow> idx < 3 \<longrightarrow>
          turn_g (doPlace (Num c) idx a) = turn_g a + 1
        \<and> remainingCoins (doPlace (Num c) idx a) = remove1 c (remainingCoins a)
        \<and> sums_g (doPlace (Num c) idx a) = (sums_g a)[idx := sums_g a ! idx + c]
        \<and> baskets_g (doPlace (Num c) idx a) = (baskets_g a)[idx := baskets_g a ! idx @ [c]]
        \<and> currentOffered_g (doPlace (Num c) idx a) = None
        \<and> appInv (doPlace (Num c) idx a))
    \<and> (\<forall>c idx. currentOffered_g a = Some idx \<longrightarrow> coinClick c a = doPlace (Num c) idx a)"
proof -
  note inv = reachableApp_inv[OF assms]
  have step: "turn_g (doPlace (Num c) idx a) = turn_g a + 1
        \<and> remainingCoins (doPlace (Num c) idx a) = remove1 c (remainingCoins a)
        \<and> sums_g (doPlace (Num c) idx a) = (sums_g a)[idx := sums_g a ! idx + c]
        \<and> baskets_g (doPlace (Num c) idx a) = (baskets_g a)[idx := baskets_g a ! idx @ [c]]
        \<and> currentOffered_g (doPlace (Num c) idx a) = None
        \<and> appInv (doPlace (Num c) idx a)"
    if "\<not> awaitingOffer a" "c \<in> set (remainingCoins a)" "idx < 3" for c idx
    using doPlace_effect[OF inv that(1,2), of idx] appInv_doPlace[OF inv that(3), of "Num c"]
    by simp
  have click: "coinClick c a = doPlace (Num c) idx a" if "currentOffered_g a = Some idx" for c idx
    using that by (simp add: coinClick_def)
  show ?thesis using appInv_facts[OF inv] step click by blast
qed

text \<open>
  Claim C9 asks more: every accepted placement moves its coin into the sum of the offered
  basket. The code misses that for the timer of the AI, which keeps the basket of the
  offer it was started by. In AI mode, offer basket 0 (the timer holds \<open>doPlace(1, 0)\<close>),
  place coin 2 by hand, offer basket 1: the state is reachable, the pending offer is
  basket 1 with the sums 2, 0, 0, and when the first timer fires coin 1 goes into basket 0
  (sums 3, 0, 0, \<open>turn\<close> from 1 to 2) and the offer of basket 1 is cleared with nothing
  placed into it. The bookkeeping above still holds there.
\<close>

theorem stale_timer_places_outside_offer:
  "reachableApp (offerBasket 1 (coinClick 2 (offerBasket 0 (initialApp True))))
   \<and> reachableApp (timerFires (offerBasket 1 (coinClick 2 (offerBasket 0 (initialApp True)))))
   \<and> currentOffered_g (offerBasket 1 (coinClick 2 (offerBasket 0 (initialApp True)))) = Some 1
   \<and> timers (offerBasket 1 (coinClick 2 (offerBasket 0 (initialApp True))))
       = [(Num 1, 0), (Num 3, 1)]
   \<and> sums_g (offerBasket 1 (coinClick 2 (offerBasket 0 (initialApp True)))) = [2, 0, 0]
   \<and> remainingCoins (offerBasket 1 (coinClick 2 (offerBasket 0 (initialApp True)))) = [1, 3, 4]
   \<and> turn_g (offerBasket 1 (coinClick 2 (offerBasket 0 (initialApp True)))) = 1
   \<and> sums_g (timerFires (offerBasket 1 (coinClick 2 (offerBasket 0 (initialApp True)))))
       = [3, 0, 0]
   \<and> baskets_g (timerFires (offerBasket 1 (coinClick 2 (offerBasket 0 (initialApp True)))))
       = [[2, 1], [], []]
   \<and> remainingCoins (timerFires (offerBasket 1 (coinClick 2 (offerBasket 0 (initialApp True)))))
       = [3, 4]
   \<and> turn_g (timerFires (offerBasket 1 (coinClick 2 (offerBasket 0 (initialApp True))))) = 2
   \<and> currentOffered_g (timerFires (offerBasket 1 (coinClick 2 (offerBasket 0 (initialApp True)))))
       = None"
proof -
  have r: "reachableApp (offerBasket 1 (coinClick 2 (offerBasket 0 (initialApp True))))"
    by (intro reachableApp.offered reachableApp.clicked reachableApp.loaded) simp_all
  have r2: "reachableApp (timerFires (offerBasket 1 (coinClick 2 (offerBasket 0 (initialApp True)))))"
    by (rule reachableApp.fired[OF r])
  have e: "currentOffered_g (offerBasket 1 (coinClick 2 (offerBasket 0 (initialApp True)))) = Some 1
   \<and> timers (offerBasket 1 (coinClick 2 (offerBasket 0 (initialApp True))))
       = [(Num 1, 0), (Num 3, 1)]
   \<and> sums_g (offerBasket 1 (coinClick 2 (offerBasket 0 (initialApp True)))) = [2, 0, 0]
   \<and> remainingCoins (offerBasket 1 (coinClick 2 (offerBasket 0 (initialApp True)))) = [1, 3, 4]
   \<and> turn_g (offerBasket 1 (coinClick 2 (offerBasket 0 (initialApp True)))) = 1
   \<and> sums_g (timerFires (offerBasket 1 (coinClick 2 (offerBasket 0 (initialApp True)))))
       = [3, 0, 0]
   \<and> baskets_g (timerFires (offerBasket 1 (coinClick 2 (offerBasket 0 (initialApp True)))))
       = [[2, 1], [], []]
   \<and> remainingCoins (timerFires (offerBasket 1 (coinClick 2 (offerBasket 0 (initialApp True)))))
       = [3, 4]
   \<and> turn_g (timerFires (offerBasket 1 (coinClick 2 (offerBasket 0 (initialApp True))))) = 2
   \<and> currentOffered_g (timerFires (offerBasket 1 (coinClick 2 (offerBasket 0 (initialApp True)))))
       = None"
    by code_simp
  show ?thesis using r r2 e by blast
qed

subsection \<open>The invariant of a multiplayer room\<close>

lemma distinct_map_int_upt: "distinct (map int [a ..< b])"
  by (simp add: distinct_map inj_on_def)

lemma roomInv_initialState: "4 \<le> n \<Longrightarrow> n \<le> 10 \<Longrightarrow> roomInv (initialState n)"
  by (simp add: roomInv_def initialState_def distinct_map_int_upt del: upt_Suc)

lemma roomInv_offerUpdate:
  assumes "roomInv c" "idx < 3" "offerTransaction uid roomData idx (Some c) = (Some c', e)"
  shows "roomInv c'"
proof (cases "offerUpdate uid roomData idx (Some c)")
  case (Inl err)
  then have "c' = c" using assms(3) by (simp add: offerTransaction_def runTransaction_def)
  then show ?thesis using assms(1) by simp
next
  case (Inr v)
  then have v: "v = Some c'" using assms(3) by (simp add: offerTransaction_def runTransaction_def)
  have "c' = c\<lparr> currentOffered := Some idx, phase := Placing \<rparr> \<and> turn c < coinCountOr4 c"
    using Inr v by (auto simp: offerUpdate_def split: if_splits)
  then show ?thesis using assms(1,2) unfolding roomInv_def
    by (auto simp: coinCountOr4_def simp del: upt_Suc)
qed

lemma roomInv_placeCoin:
  assumes "roomInv c" "placeCoinTransaction uid roomData now coin (Some c) = (Some c', e)"
  shows "roomInv c'"
proof (cases "placeCoinUpdate uid roomData now coin (Some c)")
  case (Inl err)
  then have "c' = c" using assms(2) by (simp add: placeCoinTransaction_def runTransaction_def)
  then show ?thesis using assms(1) by simp
next
  case (Inr v)
  then have v: "v = Some c'" using assms(2) by (simp add: placeCoinTransaction_def runTransaction_def)
  note inv = assms(1)[unfolded roomInv_def]
  have l3: "length (sums c) = 3" and d: "distinct (remaining c)"
    and cc: "coinCount c \<noteq> 0" and tl: "turn c + length (remaining c) = coinCount c"
    and bs: "[sum_list (baskets c 0), sum_list (baskets c 1), sum_list (baskets c 2)] = sums c"
    and tot: "sum_list (sums c) + sum_list (remaining c) = sum_list (map int [1 ..< coinCount c + 1])"
    and off: "\<forall>i. currentOffered c = Some i \<longrightarrow> i < 3"
    using inv by auto
  obtain idx where idx: "currentOffered c = Some idx" and mem: "coin \<in> set (remaining c)"
    using Inr by (auto simp: placeCoinUpdate_def split: option.splits if_splits)
  have i3: "idx < 3" using off idx by simp
  have ne: "sums c \<noteq> []" using l3 by auto
  let ?c1 = "c\<lparr> baskets := (baskets c)(idx := baskets c idx @ [coin]),
                  sums := addCoin (sums c) idx coin,
                  remaining := filter (\<lambda>x. x \<noteq> coin) (remaining c),
                  moves := moves c @
                    [\<lparr> mv_turn = turn c + 1, mv_idx = idx, mv_coin = coin, mv_by = uid,
                       mv_byShort = (case uid of
                                       Uid u \<Rightarrow> if u = [] then None else Some (take 8 u)
                                     | _ \<Rightarrow> None),
                       mv_ts = now \<rparr>],
                  turn := turn c + 1,
                  currentOffered := None \<rparr>"
  have c': "c' = (if turn c + 1 \<ge> coinCount c then ?c1\<lparr> phase := Finished \<rparr>
                  else ?c1\<lparr> phase := Offering \<rparr>)"
    using Inr v idx mem ne cc
    by (auto simp: placeCoinUpdate_def coinCountOr4_def Let_def split: if_splits)
  have len: "length (filter (\<lambda>x. x \<noteq> coin) (remaining c)) + 1 = length (remaining c)"
    using filter_neq_length[OF d mem] .
  have sm: "sum_list (addCoin (sums c) idx coin)
      + sum_list (filter (\<lambda>x. x \<noteq> coin) (remaining c)) = sum_list (map int [1 ..< coinCount c + 1])"
    using sum_list_update3[OF l3 i3, of coin] filter_neq_sum[OF d mem] tot
    by (simp add: addCoin_def)
  have "idx = 0 \<or> idx = 1 \<or> idx = 2" using i3 by auto
  then have bs': "[sum_list (baskets ?c1 0), sum_list (baskets ?c1 1), sum_list (baskets ?c1 2)]
      = addCoin (sums c) idx coin"
    using bs[symmetric] by (auto simp: addCoin_def)
  have core: "4 \<le> coinCount ?c1 \<and> coinCount ?c1 \<le> 10 \<and> length (sums ?c1) = 3
     \<and> turn ?c1 + length (remaining ?c1) = coinCount ?c1
     \<and> distinct (remaining ?c1)
     \<and> [sum_list (baskets ?c1 0), sum_list (baskets ?c1 1), sum_list (baskets ?c1 2)] = sums ?c1
     \<and> sum_list (sums ?c1) + sum_list (remaining ?c1) = sum_list (map int [1 ..< coinCount ?c1 + 1])
     \<and> (\<forall>i. currentOffered ?c1 = Some i \<longrightarrow> i < 3)"
    using inv len tl sm bs' d by (simp add: addCoin_def del: upt_Suc)
  have le: "turn c + 1 \<le> coinCount c" using tl len by simp
  show ?thesis
  proof (cases "turn c + 1 \<ge> coinCount c")
    case True
    then have e: "c' = ?c1\<lparr> phase := Finished \<rparr>" using c' by simp
    have "turn c + 1 = coinCount c" using True le by simp
    then show ?thesis unfolding e roomInv_def using core by (auto simp del: upt_Suc)
  next
    case False
    then have e: "c' = ?c1\<lparr> phase := Offering \<rparr>" using c' by simp
    show ?thesis unfolding e roomInv_def using core False by (auto simp del: upt_Suc)
  qed
qed

lemma roomInv_started: "roomInv c \<Longrightarrow> phase c = Waiting \<Longrightarrow> roomInv (c\<lparr> phase := Offering \<rparr>)"
  by (auto simp: roomInv_def simp del: upt_Suc)

lemma reachableRoom_inv: "reachableRoom c \<Longrightarrow> roomInv c"
proof (induction rule: reachableRoom.induct)
  case (created n)
  then show ?case by (rule roomInv_initialState)
next
  case (offerTried c idx uid roomData c' e)
  then show ?case using roomInv_offerUpdate by blast
next
  case (placeTried c uid roomData now coin c' e)
  then show ?case using roomInv_placeCoin by blast
next
  case (started c)
  then show ?case using roomInv_started by blast
next
  case (reset c)
  then have "4 \<le> coinCount c" "coinCount c \<le> 10" by (simp_all add: roomInv_def)
  then show ?case by (rule roomInv_initialState)
qed

text \<open>
  The same bookkeeping holds in a multiplayer room with its \<open>N = coinCount\<close> coins:
  \<open>turn = N - |remaining|\<close>, the sums add up to the coins in the baskets, no coin remains
  exactly when \<open>turn = N\<close>, and that is exactly when the phase is \<open>finished\<close>.
\<close>

lemma room_state_invariant:
  assumes "reachableRoom c"
  shows "turn c = coinCount c - length (remaining c)" "length (remaining c) \<le> coinCount c"
    and "sum_list (sums c) = sum_list (baskets c 0 @ baskets c 1 @ baskets c 2)"
    and "turn c = coinCount c \<longleftrightarrow> remaining c = []"
    and "phase c = Finished \<longleftrightarrow> turn c = coinCount c"
proof -
  note inv = reachableRoom_inv[OF assms, unfolded roomInv_def]
  have tl: "turn c + length (remaining c) = coinCount c" using inv by blast
  have bs: "[sum_list (baskets c 0), sum_list (baskets c 1), sum_list (baskets c 2)] = sums c"
    using inv by blast
  show "turn c = coinCount c - length (remaining c)" "length (remaining c) \<le> coinCount c"
    using tl by arith+
  show "sum_list (sums c) = sum_list (baskets c 0 @ baskets c 1 @ baskets c 2)"
    unfolding bs[symmetric] by simp
  show "turn c = coinCount c \<longleftrightarrow> remaining c = []" using tl by auto
  show "phase c = Finished \<longleftrightarrow> turn c = coinCount c" using inv by blast
qed

subsection \<open>Rejected placements and offers\<close>

lemma reachable_no_offer_no_placement:
  assumes "reachableApp a" "currentOffered_g a = None"
  shows "doPlace v idx a = a"
proof (cases "awaitingOffer a")
  case True
  then show ?thesis by (rule doPlace_rejected(1))
next
  case False
  note inv = reachableApp_inv[OF assms(1), unfolded appInv_def]
  have "turn_g a = 4" using inv False assms(2) by auto
  then have "remainingCoins a = []" using inv by simp
  then show ?thesis by (cases v) (simp_all add: doPlace_def)
qed

lemma placeCoinTransaction_no_offer:
  "currentOffered c = None \<Longrightarrow>
   placeCoinTransaction uid roomData now coin (Some c) = (Some c, Some NoBasketOffered)"
  by (simp add: placeCoinTransaction_def runTransaction_def placeCoinUpdate_def)

lemma placeCoinTransaction_no_coin:
  "currentOffered c = Some i \<Longrightarrow>
   (case roomData of None \<Rightarrow> Null | Some r \<Rightarrow> placer r) = uid \<Longrightarrow>
   coin \<notin> set (remaining c) \<Longrightarrow>
   placeCoinTransaction uid roomData now coin (Some c) = (Some c, Some CoinNotAvailable)"
  by (simp add: placeCoinTransaction_def runTransaction_def placeCoinUpdate_def)

lemma placeCoinTransaction_rejects:
  assumes "currentOffered c = None \<or> coin \<notin> set (remaining c)"
  shows "\<exists>e. placeCoinTransaction uid roomData now coin (Some c) = (Some c, Some e)"
  using assms
  by (cases "currentOffered c")
     (auto simp: placeCoinTransaction_def runTransaction_def placeCoinUpdate_def)

text \<open>
  Claim C7, as the code has it. A placement of a coin that does not remain, or while no offer
  is pending, changes nothing. In the single-page game \<open>doPlace\<close> then returns normally,
  without an error. In the multiplayer game the transaction throws
  (\<open>No basket offered\<close> before any other check, \<open>Coin not available\<close> for the placer
  of the room) and the stored state stays as it was.
\<close>

theorem invalid_placement_changes_nothing:
  "(awaitingOffer a \<or> c \<notin> set (remainingCoins a) \<longrightarrow> doPlaceOutcome (Num c) idx a = Inr a)
   \<and> (reachableApp a \<longrightarrow> currentOffered_g a = None \<longrightarrow> doPlaceOutcome v idx a = Inr a)
   \<and> (currentOffered cu = None \<or> coin \<notin> set (remaining cu) \<longrightarrow>
        (\<exists>e. placeCoinTransaction uid roomData now coin (Some cu) = (Some cu, Some e)))
   \<and> (currentOffered cu = None \<longrightarrow>
        placeCoinTransaction uid roomData now coin (Some cu) = (Some cu, Some NoBasketOffered))
   \<and> (currentOffered cu \<noteq> None \<longrightarrow>
        (case roomData of None \<Rightarrow> Null | Some r \<Rightarrow> placer r) = uid \<longrightarrow>
        coin \<notin> set (remaining cu) \<longrightarrow>
        placeCoinTransaction uid roomData now coin (Some cu) = (Some cu, Some CoinNotAvailable))"
proof -
  have 1: "awaitingOffer a \<or> c \<notin> set (remainingCoins a) \<longrightarrow> doPlaceOutcome (Num c) idx a = Inr a"
    using doPlace_rejected(1,2) by (auto simp: doPlaceOutcome_def)
  have 2: "reachableApp a \<longrightarrow> currentOffered_g a = None \<longrightarrow> doPlaceOutcome v idx a = Inr a"
    using reachable_no_offer_no_placement by (simp add: doPlaceOutcome_def)
  have 3: "currentOffered cu = None \<or> coin \<notin> set (remaining cu) \<longrightarrow>
        (\<exists>e. placeCoinTransaction uid roomData now coin (Some cu) = (Some cu, Some e))"
    using placeCoinTransaction_rejects by blast
  have 4: "currentOffered cu = None \<longrightarrow>
        placeCoinTransaction uid roomData now coin (Some cu) = (Some cu, Some NoBasketOffered)"
    using placeCoinTransaction_no_offer by blast
  have 5: "currentOffered cu \<noteq> None \<longrightarrow>
        (case roomData of None \<Rightarrow> Null | Some r \<Rightarrow> placer r) = uid \<longrightarrow>
        coin \<notin> set (remaining cu) \<longrightarrow>
        placeCoinTransaction uid roomData now coin (Some cu) = (Some cu, Some CoinNotAvailable)"
    using placeCoinTransaction_no_coin by blast
  show ?thesis using 1 2 3 4 5 by blast
qed

theorem invalid_placement_changes_nothing_witness:
  "doPlaceOutcome (Num 7) 0 (offerBasket 0 (initialApp False)) = Inr (offerBasket 0 (initialApp False))
   \<and> placeCoinTransaction (Uid ''p'') None 0 1 (Some (initialState 4))
       = (Some (initialState 4), Some NoBasketOffered)"
proof -
  have r: "7 \<notin> set (remainingCoins (offerBasket 0 (initialApp False)))"
    by (simp add: offerBasket_def initialApp_def)
  have n: "currentOffered (initialState 4) = None" by (simp add: initialState_def)
  from invalid_placement_changes_nothing[of "offerBasket 0 (initialApp False)" 7 0 _ "initialState 4"
      1 "Uid ''p''" None 0]
  show ?thesis using r n by simp
qed

text \<open>
  Claim C7 as stated fails in the single-page game. Placing coin 7, which does not exist,
  returns normally. And \<open>doPlace\<close> never compares its basket with the pending offer: in
  AI mode, after basket 0 is offered, coin 2 is placed by hand and basket 1 is offered, the
  timer of the first offer still holds \<open>doPlace(1, 0)\<close>; the state is reachable, the
  pending offer is basket 1, and the call puts coin 1 into basket 0.
\<close>

theorem invalid_placement_counterexample:
  "doPlaceOutcome (Num 7) 0 (offerBasket 0 (initialApp False)) = Inr (offerBasket 0 (initialApp False))
   \<and> reachableApp (offerBasket 1 (coinClick 2 (offerBasket 0 (initialApp True))))
   \<and> timers (offerBasket 1 (coinClick 2 (offerBasket 0 (initialApp True))))
       = [(Num 1, 0), (Num 3, 1)]
   \<and> currentOffered_g (offerBasket 1 (coinClick 2 (offerBasket 0 (initialApp True)))) = Some 1
   \<and> sums_g (offerBasket 1 (coinClick 2 (offerBasket 0 (initialApp True)))) = [2, 0, 0]
   \<and> map_sum id sums_g
        (doPlaceOutcome (Num 1) 0 (offerBasket 1 (coinClick 2 (offerBasket 0 (initialApp True)))))
       = Inr [3, 0, 0]"
proof -
  have 1: "doPlaceOutcome (Num 7) 0 (offerBasket 0 (initialApp False))
      = Inr (offerBasket 0 (initialApp False))"
    by (simp add: doPlaceOutcome_def doPlace_def offerBasket_def initialApp_def)
  have r: "reachableApp (offerBasket 1 (coinClick 2 (offerBasket 0 (initialApp True))))"
    by (intro reachableApp.offered reachableApp.clicked reachableApp.loaded) simp_all
  have 2: "timers (offerBasket 1 (coinClick 2 (offerBasket 0 (initialApp True))))
       = [(Num 1, 0), (Num 3, 1)]
   \<and> currentOffered_g (offerBasket 1 (coinClick 2 (offerBasket 0 (initialApp True)))) = Some 1
   \<and> sums_g (offerBasket 1 (coinClick 2 (offerBasket 0 (initialApp True)))) = [2, 0, 0]
   \<and> sums_g (doPlace (Num 1) 0 (offerBasket 1 (coinClick 2 (offerBasket 0 (initialApp True)))))
       = [3, 0, 0]"
    by code_simp
  show ?thesis using 1 2 r by (simp add: doPlaceOutcome_def)
qed

lemma offerBasket_twice: "offerBasket idx' (offerBasket idx a) = offerBasket idx a"
proof (cases "awaitingOffer a")
  case False
  then show ?thesis by (simp add: offerBasket_def)
next
  case True
  then have "\<not> awaitingOffer (offerBasket idx a)"
    by (simp add: offerBasket_def Let_def split: prod.split)
  then show ?thesis by (simp add: offerBasket_def[of idx'])
qed

lemma offerBasket_rejected:
  assumes "reachableApp a" "currentOffered_g a \<noteq> None \<or> turn_g a \<ge> 4"
  shows "offerBasket idx a = a"
proof -
  note inv = reachableApp_inv[OF assms(1), unfolded appInv_def]
  have "\<not> awaitingOffer a" using inv assms(2) by auto
  then show ?thesis by (simp add: offerBasket_def)
qed

lemma offerTransaction_cases:
  assumes "(case roomData of None \<Rightarrow> Undefined | Some r \<Rightarrow> presenter r) = uid"
  shows "currentOffered c \<noteq> None \<Longrightarrow>
         offerTransaction uid roomData idx (Some c) = (Some c, Some AlreadyOffered)"
    and "currentOffered c = None \<Longrightarrow> turn c \<ge> coinCountOr4 c \<Longrightarrow>
         offerTransaction uid roomData idx (Some c) = (Some c, Some GameFinished)"
    and "currentOffered c = None \<Longrightarrow> turn c < coinCountOr4 c \<Longrightarrow>
         offerTransaction uid roomData idx (Some c)
           = (Some (c\<lparr> currentOffered := Some idx, phase := Placing \<rparr>), None)"
  using assms by (simp_all add: offerTransaction_def runTransaction_def offerUpdate_def)

lemma offerTransaction_rejects:
  assumes "currentOffered c \<noteq> None \<or> turn c \<ge> coinCountOr4 c"
  shows "\<exists>e. offerTransaction uid roomData idx (Some c) = (Some c, Some e)"
  using assms by (auto simp: offerTransaction_def runTransaction_def offerUpdate_def)

text \<open>
  Claim C8, as the code has it. An offer made while an offer is pending, so also the second
  of two offers in a row, or after the last coin is placed, changes nothing. In the
  single-page game \<open>offerBasket\<close> then returns normally, without an error. In the
  multiplayer game the transaction throws (\<open>Already offered\<close>, \<open>Game finished\<close> for the
  presenter of the room) and the stored state stays as it was.
\<close>

theorem invalid_offer_changes_nothing:
  "offerBasketOutcome idx' (offerBasket idx a) = Inr (offerBasket idx a)
   \<and> (reachableApp a \<longrightarrow> currentOffered_g a \<noteq> None \<or> turn_g a \<ge> 4 \<longrightarrow>
        offerBasketOutcome idx a = Inr a)
   \<and> (currentOffered c \<noteq> None \<or> turn c \<ge> coinCountOr4 c \<longrightarrow>
        (\<exists>e. offerTransaction uid roomData idx (Some c) = (Some c, Some e)))
   \<and> ((case roomData of None \<Rightarrow> Undefined | Some r \<Rightarrow> presenter r) = uid \<longrightarrow>
        (currentOffered c \<noteq> None \<longrightarrow>
           offerTransaction uid roomData idx (Some c) = (Some c, Some AlreadyOffered))
        \<and> (currentOffered c = None \<longrightarrow> turn c \<ge> coinCountOr4 c \<longrightarrow>
           offerTransaction uid roomData idx (Some c) = (Some c, Some GameFinished))
        \<and> (currentOffered c = None \<longrightarrow> turn c < coinCountOr4 c \<longrightarrow>
           (\<exists>c'. offerTransaction uid roomData idx (Some c) = (Some c', None)
                \<and> offerTransaction uid roomData idx' (Some c') = (Some c', Some AlreadyOffered))))"
proof -
  have 1: "offerBasketOutcome idx' (offerBasket idx a) = Inr (offerBasket idx a)"
    by (simp add: offerBasketOutcome_def offerBasket_twice)
  have 2: "reachableApp a \<longrightarrow> currentOffered_g a \<noteq> None \<or> turn_g a \<ge> 4 \<longrightarrow>
        offerBasketOutcome idx a = Inr a"
    using offerBasket_rejected by (simp add: offerBasketOutcome_def)
  have 3: "currentOffered c \<noteq> None \<or> turn c \<ge> coinCountOr4 c \<longrightarrow>
        (\<exists>e. offerTransaction uid roomData idx (Some c) = (Some c, Some e))"
    using offerTransaction_rejects by blast
  have 4: "(currentOffered c \<noteq> None \<longrightarrow>
           offerTransaction uid roomData idx (Some c) = (Some c, Some AlreadyOffered))
        \<and> (currentOffered c = None \<longrightarrow> turn c \<ge> coinCountOr4 c \<longrightarrow>
           offerTransaction uid roomData idx (Some c) = (Some c, Some GameFinished))
        \<and> (currentOffered c = None \<longrightarrow> turn c < coinCountOr4 c \<longrightarrow>
           (\<exists>c'. offerTransaction uid roomData idx (Some c) = (Some c', None)
                \<and> offerTransaction uid roomData idx' (Some c') = (Some c', Some AlreadyOffered)))"
    if p: "(case roomData of None \<Rightarrow> Undefined | Some r \<Rightarrow> presenter r) = uid"
  proof (intro conjI impI)
    assume "currentOffered c \<noteq> None"
    then show "offerTransaction uid roomData idx (Some c) = (Some c, Some AlreadyOffered)"
      by (rule offerTransaction_cases(1)[OF p])
  next
    assume "currentOffered c = None" "turn c \<ge> coinCountOr4 c"
    then show "offerTransaction uid roomData idx (Some c) = (Some c, Some GameFinished)"
      by (rule offerTransaction_cases(2)[OF p])
  next
    assume a: "currentOffered c = None" "turn c < coinCountOr4 c"
    let ?c' = "c\<lparr> currentOffered := Some idx, phase := Placing \<rparr>"
    have "offerTransaction uid roomData idx (Some c) = (Some ?c', None)"
      using offerTransaction_cases(3)[OF p a] .
    moreover have "offerTransaction uid roomData idx' (Some ?c') = (Some ?c', Some AlreadyOffered)"
      by (rule offerTransaction_cases(1)[OF p]) simp
    ultimately show "\<exists>c'. offerTransaction uid roomData idx (Some c) = (Some c', None)
                \<and> offerTransaction uid roomData idx' (Some c') = (Some c', Some AlreadyOffered)"
      by blast
  qed
  show ?thesis using 1 2 3 4 by blast
qed

theorem invalid_offer_changes_nothing_witness:
  "offerTransaction (Uid ''p'') (Some \<lparr> presenter = Uid ''p'', placer = Undefined \<rparr>) 1
     (Some ((initialState 4)\<lparr> currentOffered := Some 0 \<rparr>))
   = (Some ((initialState 4)\<lparr> currentOffered := Some 0 \<rparr>), Some AlreadyOffered)
   \<and> offerBasketOutcome 1 (offerBasket 0 (initialApp False)) = Inr (offerBasket 0 (initialApp False))"
proof -
  have r: "reachableApp (offerBasket 0 (initialApp False))"
    by (rule reachableApp.offered[OF reachableApp.loaded]) simp
  have p: "currentOffered_g (offerBasket 0 (initialApp False)) \<noteq> None"
    by (simp add: offerBasket_def initialApp_def)
  from invalid_offer_changes_nothing[where idx = 1 and a = "offerBasket 0 (initialApp False)"
      and c = "(initialState 4)\<lparr> currentOffered := Some 0 \<rparr>"
      and uid = "Uid ''p''" and roomData = "Some \<lparr> presenter = Uid ''p'', placer = Undefined \<rparr>"]
  show ?thesis using r p by simp
qed

text \<open>
  Claim C8 as stated fails in the single-page game: the second of two offers in a row
  returns normally, and no error is raised.
\<close>

theorem invalid_offer_counterexample:
  "offerBasketOutcome 2 (offerBasket 0 (initialApp False)) = Inr (offerBasket 0 (initialApp False))
   \<and> currentOffered_g (offerBasket 0 (initialApp False)) = Some 0"
  by (simp add: offerBasketOutcome_def offerBasket_def initialApp_def)

section \<open>What the solver may change\<close>

subsection \<open>Only new arrays and objects are written\<close>

lemma unchanged_refl: "unchanged s s"
  by (simp add: unchanged_def)

lemma unchanged_trans: "unchanged s s' \<Longrightarrow> unchanged s' s'' \<Longrightarrow> unchanged s s''"
  by (auto simp: unchanged_def)

lemma unchanged_newArray: "unchanged s (snd (newArray xs s))"
  by (simp add: unchanged_def newArray_def)

lemma unchanged_newObject: "unchanged s (snd (newObject ob s))"
  by (simp add: unchanged_def newObject_def)

lemma unchanged_setArray_new:
  "unchanged s s' \<Longrightarrow> length (arrays s) \<le> a \<Longrightarrow> unchanged s (setArray a xs s')"
  by (auto simp: unchanged_def setArray_def list_update_append)

lemma unchanged_length:
  "unchanged s s' \<Longrightarrow> length (arrays s) \<le> length (arrays s')"
  "unchanged s s' \<Longrightarrow> length (objects s) \<le> length (objects s')"
  by (auto simp: unchanged_def)

lemma unchanged_nth:
  "unchanged s s' \<Longrightarrow> a < length (arrays s) \<Longrightarrow> arrays s' ! a = arrays s ! a"
  "unchanged s s' \<Longrightarrow> p < length (objects s) \<Longrightarrow> objects s' ! p = objects s ! p"
  by (auto simp: unchanged_def nth_append)

lemma unchanged_placerWinsH: "unchanged s (snd (placerWinsH a s))"
  by (auto simp: placerWinsH_def Let_def newArray_def setArray_def unchanged_def
        list_update_append split: prod.split)

lemma unchanged_applyCoinH:
  "applyCoinH s state off c = (newSums, newRemaining, newTurn, s3) \<Longrightarrow> unchanged s s3"
  by (auto simp: applyCoinH_def Let_def newArray_def setArray_def unchanged_def
        list_update_append split: prod.splits)

lemma frame_all:
  "(\<forall>m s state off r m' s'.
      canForceWinGivenOfferH n m s state off = Some (r, m', s') \<longrightarrow> unchanged s s')
   \<and> (\<forall>m s state off k it i r m' s'.
      coinLoopH n m s state off k it i = Some (r, m', s') \<longrightarrow> unchanged s s')
   \<and> (\<forall>m s a b t off r m' s'.
      offerLoopH n m s a b t off = Some (r, m', s') \<longrightarrow> unchanged s s')"
proof (induction n)
  case 0
  show ?case
    by (simp add: canForceWinGivenOfferH.simps[of 0] coinLoopH.simps[of 0] offerLoopH.simps[of 0])
next
  case (Suc n)
  note ih1 = Suc.IH[THEN conjunct1, rule_format]
  note ih2 = Suc.IH[THEN conjunct2, THEN conjunct1, rule_format]
  note ih3 = Suc.IH[THEN conjunct2, THEN conjunct2, rule_format]
  have 1: "unchanged s s'"
    if h: "canForceWinGivenOfferH (Suc n) m s state off = Some (r, m', s')"
    for m s state off r m' s'
  proof -
    let ?st = "objects s ! state"
    let ?k = "stateKey (arrays s ! sumsRef ?st) (arrays s ! remainingRef ?st) (turnVal ?st) off"
    show ?thesis
    proof (cases "m ?k")
      case (Some v)
      then have "s' = s" using h by (simp add: canForceWinGivenOfferH.simps[of "Suc n"] Let_def)
      then show ?thesis by (simp add: unchanged_refl)
    next
      case None
      show ?thesis
      proof (cases "length (arrays s ! remainingRef ?st) = 0")
        case True
        then have "s' = snd (placerWinsH (sumsRef ?st) s)"
          using h None
          by (auto simp: canForceWinGivenOfferH.simps[of "Suc n"] Let_def split: prod.splits)
        then show ?thesis by (simp add: unchanged_placerWinsH)
      next
        case False
        then have "coinLoopH n m s state off ?k (remainingRef ?st) 0 = Some (r, m', s')"
          using h None by (simp add: canForceWinGivenOfferH.simps[of "Suc n"] Let_def)
        then show ?thesis by (rule ih2)
      qed
    qed
  qed
  have 2: "unchanged s s'"
    if h: "coinLoopH (Suc n) m s state off k it i = Some (r, m', s')"
    for m s state off k it i r m' s'
  proof (cases "i < length (arrays s ! it)")
    case False
    then have "s' = s" using h by (simp add: coinLoopH.simps[of "Suc n"])
    then show ?thesis by (simp add: unchanged_refl)
  next
    case True
    obtain newSums newRemaining newTurn s3 where
      ap: "applyCoinH s state off (arrays s ! it ! i) = (newSums, newRemaining, newTurn, s3)"
      by (cases "applyCoinH s state off (arrays s ! it ! i)") auto
    note u3 = unchanged_applyCoinH[OF ap]
    show ?thesis
    proof (cases "newTurn \<ge> 4")
      case T4: True
      obtain win s4 where pw: "placerWinsH newSums s3 = (win, s4)"
        by (cases "placerWinsH newSums s3")
      have u4: "unchanged s s4"
        using unchanged_trans[OF u3 unchanged_placerWinsH[of s3 newSums]] pw by simp
      show ?thesis
      proof (cases win)
        case True
        then have "s' = s4" using h \<open>i < length (arrays s ! it)\<close> ap T4 pw
          by (simp add: coinLoopH.simps[of "Suc n"])
        then show ?thesis using u4 by simp
      next
        case False
        then have "coinLoopH n m s4 state off k it (i + 1) = Some (r, m', s')"
          using h \<open>i < length (arrays s ! it)\<close> ap T4 pw
          by (simp add: coinLoopH.simps[of "Suc n"])
        then show ?thesis using ih2 u4 unchanged_trans by blast
      qed
    next
      case F4: False
      show ?thesis
      proof (cases "offerLoopH n m s3 newSums newRemaining newTurn 0")
        case None
        then show ?thesis using h True ap F4 by (simp add: coinLoopH.simps[of "Suc n"])
      next
        case (Some res)
        obtain allNext m1 s4 where res: "res = (allNext, m1, s4)" by (cases res)
        have u4: "unchanged s s4"
          using unchanged_trans[OF u3 ih3[OF Some[unfolded res]]] .
        show ?thesis
        proof (cases allNext)
          case True
          then have "s' = s4" using h \<open>i < length (arrays s ! it)\<close> ap F4 Some res
            by (simp add: coinLoopH.simps[of "Suc n"])
          then show ?thesis using u4 by simp
        next
          case False
          then have "coinLoopH n m1 s4 state off k it (i + 1) = Some (r, m', s')"
            using h \<open>i < length (arrays s ! it)\<close> ap F4 Some res
            by (simp add: coinLoopH.simps[of "Suc n"])
          then show ?thesis using ih2 u4 unchanged_trans by blast
        qed
      qed
    qed
  qed
  have 3: "unchanged s s'"
    if h: "offerLoopH (Suc n) m s a b t off = Some (r, m', s')"
    for m s a b t off r m' s'
  proof (cases "off < 3")
    case False
    then have "s' = s" using h by (simp add: offerLoopH.simps[of "Suc n"])
    then show ?thesis by (simp add: unchanged_refl)
  next
    case True
    obtain nextState s1 where
      no: "newObject \<lparr> sumsRef = a, remainingRef = b, turnVal = t \<rparr> s = (nextState, s1)"
      by (cases "newObject \<lparr> sumsRef = a, remainingRef = b, turnVal = t \<rparr> s")
    have u1: "unchanged s s1"
      using unchanged_newObject[of s "\<lparr> sumsRef = a, remainingRef = b, turnVal = t \<rparr>"] no by simp
    show ?thesis
    proof (cases "canForceWinGivenOfferH n m s1 nextState off")
      case None
      then show ?thesis using h True no by (simp add: offerLoopH.simps[of "Suc n"])
    next
      case (Some res)
      obtain ok m1 s2 where res: "res = (ok, m1, s2)" by (cases res)
      have u2: "unchanged s s2" using unchanged_trans[OF u1 ih1[OF Some[unfolded res]]] .
      show ?thesis
      proof (cases ok)
        case False
        then have "s' = s2" using h True no Some res by (simp add: offerLoopH.simps[of "Suc n"])
        then show ?thesis using u2 by simp
      next
        case T: True
        then have "offerLoopH n m1 s2 a b t (off + 1) = Some (r, m', s')"
          using h True no Some res by (simp add: offerLoopH.simps[of "Suc n"])
        then show ?thesis using ih3 u2 unchanged_trans by blast
      qed
    qed
  qed
  show ?case using 1 2 3 by blast
qed

subsection \<open>The search on the store returns what the search on values returns\<close>

lemma returnsH_SucI:
  assumes "\<And>n. n \<ge> N \<Longrightarrow> f (Suc n) = Some (r, m', s')"
  shows "returnsH f r m'"
  unfolding returnsH_def
proof (intro exI[of _ "Suc N"] exI[of _ s'] allI impI)
  fix n assume "Suc N \<le> n"
  then obtain n' where "n = Suc n'" "N \<le> n'" by (cases n) auto
  then show "f n = Some (r, m', s')" using assms by simp
qed

lemma returnsH_D:
  assumes "returnsH f r m'"
  obtains N s' where "\<And>n. n \<ge> N \<Longrightarrow> f n = Some (r, m', s')"
  using assms unfolding returnsH_def by blast

lemma drop_ConsD:
  assumes "drop i xs = c # cs"
  shows "i < length xs" "xs ! i = c" "drop (i + 1) xs = cs"
proof -
  show l: "i < length xs" using assms by (cases "i < length xs") auto
  from Cons_nth_drop_Suc[OF l] assms show "xs ! i = c" "drop (i + 1) xs = cs" by auto
qed

lemma canForceWinGivenOfferH_Suc:
  "canForceWinGivenOfferH (Suc n) m s state offeredIdx =
        (let st = objects s ! state;
             k = stateKey (arrays s ! sumsRef st) (arrays s ! remainingRef st) (turnVal st)
                   offeredIdx in
         case m k of
           Some v \<Rightarrow> Some (v, m, s)
         | None \<Rightarrow>
             if length (arrays s ! remainingRef st) = 0 then
               (case placerWinsH (sumsRef st) s of
                  (res, s1) \<Rightarrow> Some (res, m(k \<mapsto> res), s1))
             else coinLoopH n m s state offeredIdx k (remainingRef st) 0)"
  unfolding canForceWinGivenOfferH.simps[of "Suc n"] diff_Suc_1 by simp

lemma coinLoopH_Suc:
  "coinLoopH (Suc n) m s state offeredIdx k it i =
     (if i < length (arrays s ! it) then
        (case applyCoinH s state offeredIdx (arrays s ! it ! i) of
           (newSums, newRemaining, newTurn, s3) \<Rightarrow>
             if newTurn \<ge> 4 then
               (case placerWinsH newSums s3 of
                  (win, s4) \<Rightarrow>
                    if win then Some (True, m(k \<mapsto> True), s4)
                    else coinLoopH n m s4 state offeredIdx k it (i + 1))
             else
               (case offerLoopH n m s3 newSums newRemaining newTurn 0 of
                  None \<Rightarrow> None
                | Some (allNext, m', s4) \<Rightarrow>
                    if allNext then Some (True, m'(k \<mapsto> True), s4)
                    else coinLoopH n m' s4 state offeredIdx k it (i + 1)))
      else Some (False, m(k \<mapsto> False), s))"
  unfolding coinLoopH.simps[of "Suc n"] diff_Suc_1 by simp

lemma offerLoopH_Suc:
  "offerLoopH (Suc n) m s newSums newRemaining newTurn nextOff =
     (if nextOff < 3 then
        (case newObject \<lparr> sumsRef = newSums, remainingRef = newRemaining, turnVal = newTurn \<rparr> s of
           (nextState, s1) \<Rightarrow>
             (case canForceWinGivenOfferH n m s1 nextState nextOff of
                None \<Rightarrow> None
              | Some (ok, m', s2) \<Rightarrow>
                  if \<not> ok then Some (False, m', s2)
                  else offerLoopH n m' s2 newSums newRemaining newTurn (nextOff + 1)))
      else Some (True, m, s))"
  unfolding offerLoopH.simps[of "Suc n"] diff_Suc_1 by simp

lemma unchanged_validObj:
  assumes "unchanged s s'" "validObj s p"
  shows "validObj s' p" "stateAt s' p = stateAt s p"
proof -
  have p: "p < length (objects s)" and a: "sumsRef (objects s ! p) < length (arrays s)"
    and b: "remainingRef (objects s ! p) < length (arrays s)"
    using assms(2) by (simp_all add: validObj_def)
  have o: "objects s' ! p = objects s ! p" using unchanged_nth(2)[OF assms(1) p] .
  show "validObj s' p"
    using p a b o unchanged_length[OF assms(1)] by (simp add: validObj_def)
  show "stateAt s' p = stateAt s p"
    using o unchanged_nth(1)[OF assms(1) a] unchanged_nth(1)[OF assms(1) b]
    by (simp add: stateAt_def)
qed

lemma placerWinsH_value: "fst (placerWinsH a s) = placerWins (arrays s ! a)"
  by (simp add: placerWinsH_def placerWins_def newArray_def setArray_def Let_def)

lemma applyCoinH_value:
  assumes "validObj s p" "applyCoinH s p off c = (ns, nr, nt, s3)"
  shows "ns < length (arrays s3)" "nr < length (arrays s3)"
    "\<lparr> sums = arrays s3 ! ns, remaining = arrays s3 ! nr, turn = nt \<rparr>
       = placeCoin (stateAt s p) off c"
proof -
  have b: "remainingRef (objects s ! p) < length (arrays s)"
    using assms(1) by (simp add: validObj_def)
  have e: "ns = length (arrays s)" "nr = Suc (length (arrays s))"
    "nt = turnVal (objects s ! p) + 1"
    "arrays s3 = arrays s @ [addCoin (arrays s ! sumsRef (objects s ! p)) off c,
        filter (\<lambda>x. x \<noteq> c) (arrays s ! remainingRef (objects s ! p))]"
    using assms(2) b
    by (auto simp: applyCoinH_def newArray_def setArray_def Let_def nth_append)
  show "ns < length (arrays s3)" "nr < length (arrays s3)" using e by simp_all
  show "\<lparr> sums = arrays s3 ! ns, remaining = arrays s3 ! nr, turn = nt \<rparr>
       = placeCoin (stateAt s p) off c"
    using e by (simp add: placeCoin_def stateAt_def nth_append)
qed

lemma solverH_returns:
  "(\<forall>s p. validObj s p \<longrightarrow> stateAt s p = st \<longrightarrow>
      returnsH (\<lambda>n. canForceWinGivenOfferH n m s p off)
        (fst (canForceWinGivenOffer m st off)) (snd (canForceWinGivenOffer m st off)))"
  "(\<forall>s p it i. validObj s p \<longrightarrow> stateAt s p = st1 \<longrightarrow> it < length (arrays s) \<longrightarrow>
      drop i (arrays s ! it) = cs \<longrightarrow>
      returnsH (\<lambda>n. coinLoopH n m1 s p off1
                  (stateKey (sums st1) (remaining st1) (turn st1) off1) it i)
        (fst (coinLoop m1 st1 off1 cs)) (snd (coinLoop m1 st1 off1 cs)))"
  "(\<forall>s a b. a < length (arrays s) \<longrightarrow> b < length (arrays s) \<longrightarrow>
      \<lparr> sums = arrays s ! a, remaining = arrays s ! b, turn = turn st2 \<rparr> = st2 \<longrightarrow>
      returnsH (\<lambda>n. offerLoopH n m2 s a b (turn st2) off2)
        (fst (offerLoop m2 st2 off2)) (snd (offerLoop m2 st2 off2)))"
proof (induction m st off and m1 st1 off1 cs and m2 st2 off2
       rule: canForceWinGivenOffer_coinLoop_offerLoop.induct)
  case (1 m st offeredIdx)
  show ?case
  proof (intro allI impI)
    fix s :: store and p
    assume v: "validObj s p" and a: "stateAt s p = st"
    let ?k = "stateKey (sums st) (remaining st) (turn st) offeredIdx"
    let ?o = "objects s ! p"
    have f: "arrays s ! sumsRef ?o = sums st" "arrays s ! remainingRef ?o = remaining st"
      "turnVal ?o = turn st"
      using a by (auto simp: stateAt_def)
    show "returnsH (\<lambda>n. canForceWinGivenOfferH n m s p offeredIdx)
        (fst (canForceWinGivenOffer m st offeredIdx)) (snd (canForceWinGivenOffer m st offeredIdx))"
    proof (cases "m ?k")
      case (Some b)
      have "canForceWinGivenOffer m st offeredIdx = (b, m)"
        using Some by (simp add: canForceWinGivenOffer.simps)
      moreover have "canForceWinGivenOfferH (Suc n) m s p offeredIdx = Some (b, m, s)" for n
        using Some f by (simp add: canForceWinGivenOfferH_Suc)
      ultimately show ?thesis by (auto intro: returnsH_SucI[of 0])
    next
      case None
      show ?thesis
      proof (cases "remaining st = []")
        case True
        obtain res s1 where pw: "placerWinsH (sumsRef ?o) s = (res, s1)"
          by (cases "placerWinsH (sumsRef ?o) s")
        have r: "res = placerWins (sums st)"
          using placerWinsH_value[of "sumsRef ?o" s] pw f by simp
        have "canForceWinGivenOffer m st offeredIdx = (res, m(?k \<mapsto> res))"
          using None True r by (simp add: canForceWinGivenOffer.simps Let_def)
        moreover have "canForceWinGivenOfferH (Suc n) m s p offeredIdx
            = Some (res, m(?k \<mapsto> res), s1)" for n
          using None True f pw by (simp add: canForceWinGivenOfferH_Suc)
        ultimately show ?thesis by (auto intro: returnsH_SucI[of 0])
      next
        case False
        then have ne: "length (remaining st) \<noteq> 0" by simp
        have it: "remainingRef ?o < length (arrays s)" using v by (simp add: validObj_def)
        have "returnsH (\<lambda>n. coinLoopH n m s p offeredIdx ?k (remainingRef ?o) 0)
            (fst (coinLoop m st offeredIdx (remaining st)))
            (snd (coinLoop m st offeredIdx (remaining st)))"
          using "1.IH"[OF refl None ne] v a it f(2) by simp
        then obtain N s' where N: "\<And>n. n \<ge> N \<Longrightarrow>
            coinLoopH n m s p offeredIdx ?k (remainingRef ?o) 0
              = Some (fst (coinLoop m st offeredIdx (remaining st)),
                      snd (coinLoop m st offeredIdx (remaining st)), s')"
          unfolding returnsH_def by blast
        have e: "canForceWinGivenOffer m st offeredIdx = coinLoop m st offeredIdx (remaining st)"
          using None False by (simp add: canForceWinGivenOffer.simps)
        have "canForceWinGivenOfferH (Suc n) m s p offeredIdx
            = Some (fst (coinLoop m st offeredIdx (remaining st)),
                      snd (coinLoop m st offeredIdx (remaining st)), s')" if "n \<ge> N" for n
          using None False f N[OF that] by (simp add: canForceWinGivenOfferH_Suc)
        then show ?thesis unfolding e by (rule returnsH_SucI)
      qed
    qed
  qed
next
  case (2 m st offeredIdx)
  show ?case
  proof (intro allI impI)
    fix s :: store and p it i
    assume d: "drop i (arrays s ! it) = []"
    let ?k = "stateKey (sums st) (remaining st) (turn st) offeredIdx"
    have "\<not> i < length (arrays s ! it)" using d by simp
    then have "coinLoopH (Suc n) m s p offeredIdx ?k it i = Some (False, m(?k \<mapsto> False), s)" for n
      by (simp add: coinLoopH_Suc)
    then show "returnsH (\<lambda>n. coinLoopH n m s p offeredIdx ?k it i)
        (fst (coinLoop m st offeredIdx [])) (snd (coinLoop m st offeredIdx []))"
      by (auto intro: returnsH_SucI[of 0])
  qed
next
  case (3 m st offeredIdx c cs)
  show ?case
  proof (intro allI impI)
    fix s :: store and p it i
    assume v: "validObj s p" and a: "stateAt s p = st" and itl: "it < length (arrays s)"
      and d: "drop i (arrays s ! it) = c # cs"
    let ?k = "stateKey (sums st) (remaining st) (turn st) offeredIdx"
    let ?next = "placeCoin st offeredIdx c"
    note dd = drop_ConsD[OF d]
    obtain ns nr nt s3 where ap: "applyCoinH s p offeredIdx c = (ns, nr, nt, s3)"
      by (cases "applyCoinH s p offeredIdx c") auto
    note av = applyCoinH_value[OF v ap, unfolded a]
    note u3 = unchanged_applyCoinH[OF ap]
    have nt: "nt = turn ?next" and nsv: "arrays s3 ! ns = sums ?next"
      using av(3) by (auto simp: state.defs dest: arg_cong[where f = turn] arg_cong[where f = sums])
    have hd: "coinLoopH (Suc n) m0 s p offeredIdx ?k it i =
       (if turn ?next \<ge> 4 then
               (case placerWinsH ns s3 of
                  (win, s4) \<Rightarrow>
                    if win then Some (True, m0(?k \<mapsto> True), s4)
                    else coinLoopH n m0 s4 p offeredIdx ?k it (i + 1))
             else
               (case offerLoopH n m0 s3 ns nr (turn ?next) 0 of
                  None \<Rightarrow> None
                | Some (allNext, m', s4) \<Rightarrow>
                    if allNext then Some (True, m'(?k \<mapsto> True), s4)
                    else coinLoopH n m' s4 p offeredIdx ?k it (i + 1)))" for n m0
      using dd(1,2) ap nt by (simp add: coinLoopH_Suc)
    have cont: "validObj s4 p \<and> stateAt s4 p = st \<and> it < length (arrays s4)
        \<and> drop (i + 1) (arrays s4 ! it) = cs" if u: "unchanged s s4" for s4
      using unchanged_validObj[OF u v] a unchanged_length(1)[OF u] itl
        unchanged_nth(1)[OF u itl] dd(3) by simp
    show "returnsH (\<lambda>n. coinLoopH n m s p offeredIdx ?k it i)
        (fst (coinLoop m st offeredIdx (c # cs))) (snd (coinLoop m st offeredIdx (c # cs)))"
    proof (cases "turn ?next \<ge> 4")
      case True
      obtain win s4 where pw: "placerWinsH ns s3 = (win, s4)" by (cases "placerWinsH ns s3")
      have w: "win = placerWins (sums ?next)"
        using placerWinsH_value[of ns s3] pw nsv by simp
      have u4: "unchanged s s4"
        using unchanged_trans[OF u3 unchanged_placerWinsH[of s3 ns]] pw by simp
      show ?thesis
      proof (cases win)
        case T: True
        have "coinLoop m st offeredIdx (c # cs) = (True, m(?k \<mapsto> True))"
          using True T w by (simp add: Let_def)
        moreover have "coinLoopH (Suc n) m s p offeredIdx ?k it i
            = Some (True, m(?k \<mapsto> True), s4)" for n
          using True T pw by (simp add: hd)
        ultimately show ?thesis by (auto intro: returnsH_SucI[of 0])
      next
        case F: False
        then have nw: "\<not> placerWins (sums ?next)" using w by simp
        have e: "coinLoop m st offeredIdx (c # cs) = coinLoop m st offeredIdx cs"
          using True nw by (simp add: Let_def)
        have "returnsH (\<lambda>n. coinLoopH n m s4 p offeredIdx ?k it (i + 1))
            (fst (coinLoop m st offeredIdx cs)) (snd (coinLoop m st offeredIdx cs))"
          using "3.IH"(1)[OF refl refl True nw] cont[OF u4] by blast
        then obtain N s' where N: "\<And>n. n \<ge> N \<Longrightarrow>
            coinLoopH n m s4 p offeredIdx ?k it (i + 1)
              = Some (fst (coinLoop m st offeredIdx cs), snd (coinLoop m st offeredIdx cs), s')"
          unfolding returnsH_def by blast
        have "coinLoopH (Suc n) m s p offeredIdx ?k it i
            = Some (fst (coinLoop m st offeredIdx cs), snd (coinLoop m st offeredIdx cs), s')"
          if "n \<ge> N" for n
          using True F pw N[OF that] by (simp add: hd)
        then show ?thesis unfolding e by (rule returnsH_SucI)
      qed
    next
      case False
      obtain allNext m' where ol: "offerLoop m ?next 0 = (allNext, m')"
        by (cases "offerLoop m ?next 0")
      have "returnsH (\<lambda>n. offerLoopH n m s3 ns nr (turn ?next) 0) allNext m'"
        using "3.IH"(2)[OF refl refl False] av nt ol by simp
      then obtain N1 s4 where N1: "\<And>n. n \<ge> N1 \<Longrightarrow>
          offerLoopH n m s3 ns nr (turn ?next) 0 = Some (allNext, m', s4)"
        unfolding returnsH_def by blast
      have "unchanged s3 s4"
        using frame_all[of N1, THEN conjunct2, THEN conjunct2, rule_format, OF N1[OF le_refl]] .
      then have u4: "unchanged s s4" using u3 unchanged_trans by blast
      show ?thesis
      proof (cases allNext)
        case T: True
        have "coinLoop m st offeredIdx (c # cs) = (True, m'(?k \<mapsto> True))"
          using False ol T by (simp add: Let_def)
        moreover have "coinLoopH (Suc n) m s p offeredIdx ?k it i
            = Some (True, m'(?k \<mapsto> True), s4)" if "n \<ge> N1" for n
          using False T N1[OF that] by (simp add: hd)
        ultimately show ?thesis by (auto intro: returnsH_SucI[of N1])
      next
        case F: False
        have e: "coinLoop m st offeredIdx (c # cs) = coinLoop m' st offeredIdx cs"
          using False ol F by (simp add: Let_def)
        have "returnsH (\<lambda>n. coinLoopH n m' s4 p offeredIdx ?k it (i + 1))
            (fst (coinLoop m' st offeredIdx cs)) (snd (coinLoop m' st offeredIdx cs))"
          using "3.IH"(3)[OF refl refl False ol[symmetric] F] cont[OF u4] by blast
        then obtain N2 s' where N2: "\<And>n. n \<ge> N2 \<Longrightarrow>
            coinLoopH n m' s4 p offeredIdx ?k it (i + 1)
              = Some (fst (coinLoop m' st offeredIdx cs), snd (coinLoop m' st offeredIdx cs), s')"
          unfolding returnsH_def by blast
        have "coinLoopH (Suc n) m s p offeredIdx ?k it i
            = Some (fst (coinLoop m' st offeredIdx cs), snd (coinLoop m' st offeredIdx cs), s')"
          if "n \<ge> max N1 N2" for n
          using False F N1[of n] N2[of n] that by (simp add: hd)
        then show ?thesis unfolding e by (rule returnsH_SucI)
      qed
    qed
  qed
next
  case (4 m "next" nextOff)
  show ?case
  proof (intro allI impI)
    fix s :: store and a b
    assume al: "a < length (arrays s)" and bl: "b < length (arrays s)"
      and nx: "\<lparr> sums = arrays s ! a, remaining = arrays s ! b, turn = turn next \<rparr> = next"
    show "returnsH (\<lambda>n. offerLoopH n m s a b (turn next) nextOff)
        (fst (offerLoop m next nextOff)) (snd (offerLoop m next nextOff))"
    proof (cases "nextOff < 3")
      case False
      then have "offerLoop m next nextOff = (True, m)" by (simp add: offerLoop.simps)
      moreover have "offerLoopH (Suc n) m s a b (turn next) nextOff = Some (True, m, s)" for n
        using False by (simp add: offerLoopH_Suc)
      ultimately show ?thesis by (auto intro: returnsH_SucI[of 0])
    next
      case True
      let ?ob = "\<lparr> sumsRef = a, remainingRef = b, turnVal = turn next \<rparr>"
      let ?p1 = "length (objects s)"
      let ?s1 = "s\<lparr> objects := objects s @ [?ob] \<rparr>"
      have no: "newObject ?ob s = (?p1, ?s1)" by (simp add: newObject_def)
      have u1: "unchanged s ?s1" using unchanged_newObject[of s ?ob] no by simp
      have v1: "validObj ?s1 ?p1" using al bl by (simp add: validObj_def)
      have a1: "stateAt ?s1 ?p1 = next" using nx by (simp add: stateAt_def)
      obtain ok m' where c: "canForceWinGivenOffer m next nextOff = (ok, m')"
        by (cases "canForceWinGivenOffer m next nextOff")
      have "returnsH (\<lambda>n. canForceWinGivenOfferH n m ?s1 ?p1 nextOff) ok m'"
        using "4.IH"(1)[OF True] v1 a1 c by simp
      then obtain N1 s2 where N1: "\<And>n. n \<ge> N1 \<Longrightarrow>
          canForceWinGivenOfferH n m ?s1 ?p1 nextOff = Some (ok, m', s2)"
        unfolding returnsH_def by blast
      have "unchanged ?s1 s2"
        using frame_all[of N1, THEN conjunct1, rule_format, OF N1[OF le_refl]] .
      then have u2: "unchanged s s2" using u1 unchanged_trans by blast
      have hd: "offerLoopH (Suc n) m s a b (turn next) nextOff =
          (if \<not> ok then Some (False, m', s2)
           else offerLoopH n m' s2 a b (turn next) (nextOff + 1))" if "n \<ge> N1" for n
        using True no N1[OF that] by (simp add: offerLoopH_Suc)
      show ?thesis
      proof (cases ok)
        case F: False
        have "offerLoop m next nextOff = (False, m')"
          using True c F by (simp add: offerLoop.simps[of m])
        moreover have "offerLoopH (Suc n) m s a b (turn next) nextOff = Some (False, m', s2)"
          if "n \<ge> N1" for n
          using hd[OF that] F by simp
        ultimately show ?thesis by (auto intro: returnsH_SucI[of N1])
      next
        case T: True
        have e: "offerLoop m next nextOff = offerLoop m' next (nextOff + 1)"
          using True c T by (simp add: offerLoop.simps[of m])
        have k: "a < length (arrays s2)" "b < length (arrays s2)"
          "\<lparr> sums = arrays s2 ! a, remaining = arrays s2 ! b, turn = turn next \<rparr> = next"
          using unchanged_length(1)[OF u2] al bl unchanged_nth(1)[OF u2 al]
            unchanged_nth(1)[OF u2 bl] nx by simp_all
        have "returnsH (\<lambda>n. offerLoopH n m' s2 a b (turn next) (nextOff + 1))
            (fst (offerLoop m' next (nextOff + 1))) (snd (offerLoop m' next (nextOff + 1)))"
          using "4.IH"(2)[OF True c[symmetric]] T k by blast
        then obtain N2 s' where N2: "\<And>n. n \<ge> N2 \<Longrightarrow>
            offerLoopH n m' s2 a b (turn next) (nextOff + 1)
              = Some (fst (offerLoop m' next (nextOff + 1)),
                      snd (offerLoop m' next (nextOff + 1)), s')"
          unfolding returnsH_def by blast
        have "offerLoopH (Suc n) m s a b (turn next) nextOff
            = Some (fst (offerLoop m' next (nextOff + 1)),
                      snd (offerLoop m' next (nextOff + 1)), s')" if "n \<ge> max N1 N2" for n
          using hd[of n] N2[of n] T that by simp
        then show ?thesis unfolding e by (rule returnsH_SucI)
      qed
    qed
  qed
qed

lemma frame_offerLoopAI:
  "offerLoopAI n m s p off = Some (r, m', s') \<Longrightarrow> unchanged s s'"
proof (induction n arbitrary: m s off)
  case 0
  then show ?case by simp
next
  case (Suc n)
  show ?case
  proof (cases "off < 3")
    case False
    then have "s' = s" using Suc.prems by simp
    then show ?thesis by (simp add: unchanged_refl)
  next
    case True
    show ?thesis
    proof (cases "canForceWinGivenOfferH n m s p off")
      case None
      then show ?thesis using Suc.prems True by simp
    next
      case (Some res)
      obtain ok m1 s1 where res: "res = (ok, m1, s1)" by (cases res)
      have u1: "unchanged s s1"
        using frame_all[of n, THEN conjunct1, rule_format, OF Some[unfolded res]] .
      show ?thesis
      proof (cases ok)
        case False
        then have "s' = s1" using Suc.prems True Some res by simp
        then show ?thesis using u1 by simp
      next
        case T: True
        then have "offerLoopAI n m1 s1 p (off + 1) = Some (r, m', s')"
          using Suc.prems True Some res by simp
        then show ?thesis using Suc.IH u1 unchanged_trans by blast
      qed
    qed
  qed
qed

lemma frame_chooseLoopH:
  "chooseLoopH n m s p off it i = Some (r, m', s') \<Longrightarrow> unchanged s s'"
proof (induction n arbitrary: m s i)
  case 0
  then show ?case by simp
next
  case (Suc n)
  show ?case
  proof (cases "i < length (arrays s ! it)")
    case False
    then have "s' = s" using Suc.prems by simp
    then show ?thesis by (simp add: unchanged_refl)
  next
    case True
    obtain ns nr nt s3 where
      ap: "applyCoinH s p off (arrays s ! it ! i) = (ns, nr, nt, s3)"
      by (cases "applyCoinH s p off (arrays s ! it ! i)") auto
    let ?ob = "\<lparr> sumsRef = ns, remainingRef = nr, turnVal = nt \<rparr>"
    obtain p1 s4 where no: "newObject ?ob s3 = (p1, s4)" by (cases "newObject ?ob s3")
    have u4: "unchanged s s4"
      using unchanged_trans[OF unchanged_applyCoinH[OF ap] unchanged_newObject[of s3 ?ob]] no
      by simp
    show ?thesis
    proof (cases "turnVal (objects s4 ! p1) \<ge> 4")
      case T4: True
      obtain win s5 where pw: "placerWinsH ns s4 = (win, s5)" by (cases "placerWinsH ns s4")
      have u5: "unchanged s s5"
        using unchanged_trans[OF u4 unchanged_placerWinsH[of s4 ns]] pw by simp
      show ?thesis
      proof (cases win)
        case True
        then have "s' = s5" using Suc.prems \<open>i < length (arrays s ! it)\<close> ap no T4 pw by simp
        then show ?thesis using u5 by simp
      next
        case False
        then have "chooseLoopH n m s5 p off it (i + 1) = Some (r, m', s')"
          using Suc.prems \<open>i < length (arrays s ! it)\<close> ap no T4 pw by simp
        then show ?thesis using Suc.IH u5 unchanged_trans by blast
      qed
    next
      case F4: False
      show ?thesis
      proof (cases "offerLoopAI n m s4 p1 0")
        case None
        then show ?thesis using Suc.prems True ap no F4 by simp
      next
        case (Some res)
        obtain allOk m1 s5 where res: "res = (allOk, m1, s5)" by (cases res)
        have u5: "unchanged s s5"
          using unchanged_trans[OF u4 frame_offerLoopAI[OF Some[unfolded res]]] .
        show ?thesis
        proof (cases allOk)
          case True
          then have "s' = s5" using Suc.prems \<open>i < length (arrays s ! it)\<close> ap no F4 Some res
            by simp
          then show ?thesis using u5 by simp
        next
          case False
          then have "chooseLoopH n m1 s5 p off it (i + 1) = Some (r, m', s')"
            using Suc.prems \<open>i < length (arrays s ! it)\<close> ap no F4 Some res by simp
          then show ?thesis using Suc.IH u5 unchanged_trans by blast
        qed
      qed
    qed
  qed
qed

lemma offerLoopAI_returns:
  "validObj s p \<Longrightarrow> stateAt s p = next \<Longrightarrow>
   returnsH (\<lambda>n. offerLoopAI n m s p off) (fst (offerLoop m next off)) (snd (offerLoop m next off))"
proof (induction "3 - off" arbitrary: off m s)
  case 0
  then have "\<not> off < 3" by simp
  then have "offerLoop m next off = (True, m)" "\<And>n. offerLoopAI (Suc n) m s p off = Some (True, m, s)"
    by (simp_all add: offerLoop.simps)
  then show ?case by (auto intro: returnsH_SucI[of 0])
next
  case (Suc k)
  then have lt: "off < 3" by simp
  obtain ok m' where c: "canForceWinGivenOffer m next off = (ok, m')"
    by (cases "canForceWinGivenOffer m next off")
  have "returnsH (\<lambda>n. canForceWinGivenOfferH n m s p off) ok m'"
    using solverH_returns(1)[of "next" m off] Suc.prems c by simp
  then obtain N1 s1 where N1: "\<And>n. n \<ge> N1 \<Longrightarrow>
      canForceWinGivenOfferH n m s p off = Some (ok, m', s1)"
    unfolding returnsH_def by blast
  have u1: "unchanged s s1"
    using frame_all[of N1, THEN conjunct1, rule_format, OF N1[OF le_refl]] .
  show ?case
  proof (cases ok)
    case False
    have "offerLoop m next off = (False, m')" using lt c False by (simp add: offerLoop.simps[of m])
    moreover have "offerLoopAI (Suc n) m s p off = Some (False, m', s1)" if "n \<ge> N1" for n
      using lt N1[OF that] False by simp
    ultimately show ?thesis by (auto intro: returnsH_SucI[of N1])
  next
    case True
    have e: "offerLoop m next off = offerLoop m' next (off + 1)"
      using lt c True by (simp add: offerLoop.simps[of m])
    have "k = 3 - (off + 1)" using Suc.hyps(2) by simp
    from Suc.hyps(1)[OF this, of s1 m'] unchanged_validObj[OF u1 Suc.prems(1)] Suc.prems(2)
    have "returnsH (\<lambda>n. offerLoopAI n m' s1 p (off + 1))
        (fst (offerLoop m' next (off + 1))) (snd (offerLoop m' next (off + 1)))"
      by simp
    then obtain N2 s' where N2: "\<And>n. n \<ge> N2 \<Longrightarrow>
        offerLoopAI n m' s1 p (off + 1)
          = Some (fst (offerLoop m' next (off + 1)), snd (offerLoop m' next (off + 1)), s')"
      unfolding returnsH_def by blast
    have "offerLoopAI (Suc n) m s p off
        = Some (fst (offerLoop m' next (off + 1)), snd (offerLoop m' next (off + 1)), s')"
      if "n \<ge> max N1 N2" for n
      using lt N1[of n] N2[of n] True that by simp
    then show ?thesis unfolding e by (rule returnsH_SucI)
  qed
qed

lemma chooseLoopH_returns:
  "validObj s p \<Longrightarrow> stateAt s p = st \<Longrightarrow> it < length (arrays s) \<Longrightarrow>
   drop i (arrays s ! it) = cs \<Longrightarrow>
   returnsH (\<lambda>n. chooseLoopH n m s p off it i)
     (fst (chooseLoop m st off cs)) (snd (chooseLoop m st off cs))"
proof (induction cs arbitrary: m s i)
  case Nil
  then have "\<not> i < length (arrays s ! it)" by simp
  moreover have "arrays s ! remainingRef (objects s ! p) = remaining st"
    using Nil.prems(2) by (auto simp: stateAt_def)
  ultimately have "chooseLoopH (Suc n) m s p off it i = Some (mathMax (remaining st), m, s)" for n
    by simp
  then show ?case by (auto intro: returnsH_SucI[of 0])
next
  case (Cons c cs)
  let ?next = "placeCoin st off c"
  note v = Cons.prems(1) and a = Cons.prems(2) and itl = Cons.prems(3)
  note dd = drop_ConsD[OF Cons.prems(4)]
  obtain ns nr nt s3 where ap: "applyCoinH s p off c = (ns, nr, nt, s3)"
    by (cases "applyCoinH s p off c") auto
  note av = applyCoinH_value[OF v ap, unfolded a]
  have nt: "nt = turn ?next" and nsv: "arrays s3 ! ns = sums ?next"
    using av(3) by (auto simp: state.defs dest: arg_cong[where f = turn] arg_cong[where f = sums])
  let ?ob = "\<lparr> sumsRef = ns, remainingRef = nr, turnVal = nt \<rparr>"
  let ?p1 = "length (objects s3)"
  let ?s4 = "s3\<lparr> objects := objects s3 @ [?ob] \<rparr>"
  have no: "newObject ?ob s3 = (?p1, ?s4)" by (simp add: newObject_def)
  have u4: "unchanged s ?s4"
    using unchanged_trans[OF unchanged_applyCoinH[OF ap] unchanged_newObject[of s3 ?ob]] no
    by simp
  have v4: "validObj ?s4 ?p1" using av(1,2) by (simp add: validObj_def)
  have a4: "stateAt ?s4 ?p1 = ?next" using av(3) by (simp add: stateAt_def)
  have hd: "chooseLoopH (Suc n) m0 s p off it i =
      (if turn ?next \<ge> 4 then
         (case placerWinsH ns ?s4 of
            (win, s5) \<Rightarrow>
              if win then Some (Num c, m0, s5)
              else chooseLoopH n m0 s5 p off it (i + 1))
       else
         (case offerLoopAI n m0 ?s4 ?p1 0 of
            None \<Rightarrow> None
          | Some (allOk, m', s5) \<Rightarrow>
              if allOk then Some (Num c, m', s5)
              else chooseLoopH n m' s5 p off it (i + 1)))" for n m0
    unfolding chooseLoopH.simps dd(2) using dd(1) ap no nt by simp
  have cont: "validObj s5 p \<and> stateAt s5 p = st \<and> it < length (arrays s5)
      \<and> drop (i + 1) (arrays s5 ! it) = cs" if u: "unchanged s s5" for s5
    using unchanged_validObj[OF u v] a unchanged_length(1)[OF u] itl
      unchanged_nth(1)[OF u itl] dd(3) by simp
  show ?case
  proof (cases "turn ?next \<ge> 4")
    case True
    obtain win s5 where pw: "placerWinsH ns ?s4 = (win, s5)" by (cases "placerWinsH ns ?s4")
    have w: "win = placerWins (sums ?next)"
      using placerWinsH_value[of ns ?s4] pw nsv by simp
    have u5: "unchanged s s5"
      using unchanged_trans[OF u4 unchanged_placerWinsH[of ?s4 ns]] pw by simp
    show ?thesis
    proof (cases win)
      case T: True
      have "chooseLoop m st off (c # cs) = (Num c, m)" using True T w by (simp add: Let_def)
      moreover have "chooseLoopH (Suc n) m s p off it i = Some (Num c, m, s5)" for n
        unfolding hd using True T pw by simp
      ultimately show ?thesis by (auto intro: returnsH_SucI[of 0])
    next
      case F: False
      have e: "chooseLoop m st off (c # cs) = chooseLoop m st off cs"
        using True F w by (simp add: Let_def)
      have "returnsH (\<lambda>n. chooseLoopH n m s5 p off it (i + 1))
          (fst (chooseLoop m st off cs)) (snd (chooseLoop m st off cs))"
        using Cons.IH[of s5 "i + 1" m] cont[OF u5] by blast
      then obtain N s' where N: "\<And>n. n \<ge> N \<Longrightarrow>
          chooseLoopH n m s5 p off it (i + 1)
            = Some (fst (chooseLoop m st off cs), snd (chooseLoop m st off cs), s')"
        unfolding returnsH_def by blast
      have "chooseLoopH (Suc n) m s p off it i
          = Some (fst (chooseLoop m st off cs), snd (chooseLoop m st off cs), s')"
        if "n \<ge> N" for n
        unfolding hd using True F pw N[OF that] by simp
      then show ?thesis unfolding e by (rule returnsH_SucI)
    qed
  next
    case False
    obtain allOk m' where ol: "offerLoop m ?next 0 = (allOk, m')"
      by (cases "offerLoop m ?next 0")
    have "returnsH (\<lambda>n. offerLoopAI n m ?s4 ?p1 0) allOk m'"
      using offerLoopAI_returns[OF v4 a4, of m 0] ol by simp
    then obtain N1 s5 where N1: "\<And>n. n \<ge> N1 \<Longrightarrow>
        offerLoopAI n m ?s4 ?p1 0 = Some (allOk, m', s5)"
      unfolding returnsH_def by blast
    have u5: "unchanged s s5"
      using unchanged_trans[OF u4 frame_offerLoopAI[OF N1[OF le_refl]]] .
    show ?thesis
    proof (cases allOk)
      case T: True
      have "chooseLoop m st off (c # cs) = (Num c, m')" using False ol T by (simp add: Let_def)
      moreover have "chooseLoopH (Suc n) m s p off it i = Some (Num c, m', s5)"
        if "n \<ge> N1" for n
        unfolding hd using False T N1[OF that] by simp
      ultimately show ?thesis by (auto intro: returnsH_SucI[of N1])
    next
      case F: False
      have e: "chooseLoop m st off (c # cs) = chooseLoop m' st off cs"
        using False ol F by (simp add: Let_def)
      have "returnsH (\<lambda>n. chooseLoopH n m' s5 p off it (i + 1))
          (fst (chooseLoop m' st off cs)) (snd (chooseLoop m' st off cs))"
        using Cons.IH[of s5 "i + 1" m'] cont[OF u5] by blast
      then obtain N2 s' where N2: "\<And>n. n \<ge> N2 \<Longrightarrow>
          chooseLoopH n m' s5 p off it (i + 1)
            = Some (fst (chooseLoop m' st off cs), snd (chooseLoop m' st off cs), s')"
        unfolding returnsH_def by blast
      have "chooseLoopH (Suc n) m s p off it i
          = Some (fst (chooseLoop m' st off cs), snd (chooseLoop m' st off cs), s')"
        if "n \<ge> max N1 N2" for n
        unfolding hd using False F N1[of n] N2[of n] that by simp
      then show ?thesis unfolding e by (rule returnsH_SucI)
    qed
  qed
qed

lemma unchanged_pointwise:
  assumes "unchanged s s'" "validObj s p"
  shows "(\<forall>a < length (arrays s). arrays s' ! a = arrays s ! a)
    \<and> (\<forall>q < length (objects s). objects s' ! q = objects s ! q)
    \<and> sums (stateAt s' p) = sums (stateAt s p)
    \<and> remaining (stateAt s' p) = remaining (stateAt s p)
    \<and> turn (stateAt s' p) = turn (stateAt s p)"
  using unchanged_nth[OF assms(1)] unchanged_validObj(2)[OF assms] by simp

text \<open>
  Claim C10. The search and the chooser never change the state passed to them. Called on a
  state object of the data model whose fields point to arrays of the store, each of them
  returns (for every bound that is large enough) the result and the cache of the function
  on values, and when it has returned, every array and every object that existed before
  the call holds what it held before: the caller's sums, remaining coins and turn are
  unchanged. All writes go to arrays that \<open>slice\<close> and \<open>filter\<close> allocated during the
  call.
\<close>

theorem solver_leaves_state_unchanged:
  assumes "validObj s p" and "wellFormed (stateAt s p)" and "offeredIdx < 3"
  shows "returnsH (\<lambda>n. canForceWinGivenOfferH n m s p offeredIdx)
           (fst (canForceWinGivenOffer m (stateAt s p) offeredIdx))
           (snd (canForceWinGivenOffer m (stateAt s p) offeredIdx))
    \<and> returnsH (\<lambda>n. aiChooseCoinForOfferH n m s p offeredIdx)
           (fst (aiChooseCoinForOffer m (stateAt s p) offeredIdx))
           (snd (aiChooseCoinForOffer m (stateAt s p) offeredIdx))
    \<and> (\<forall>n r m' s'. canForceWinGivenOfferH n m s p offeredIdx = Some (r, m', s') \<longrightarrow>
          (\<forall>a < length (arrays s). arrays s' ! a = arrays s ! a)
          \<and> (\<forall>q < length (objects s). objects s' ! q = objects s ! q)
          \<and> sums (stateAt s' p) = sums (stateAt s p)
          \<and> remaining (stateAt s' p) = remaining (stateAt s p)
          \<and> turn (stateAt s' p) = turn (stateAt s p))
    \<and> (\<forall>n r m' s'. aiChooseCoinForOfferH n m s p offeredIdx = Some (r, m', s') \<longrightarrow>
          (\<forall>a < length (arrays s). arrays s' ! a = arrays s ! a)
          \<and> (\<forall>q < length (objects s). objects s' ! q = objects s ! q)
          \<and> sums (stateAt s' p) = sums (stateAt s p)
          \<and> remaining (stateAt s' p) = remaining (stateAt s p)
          \<and> turn (stateAt s' p) = turn (stateAt s p))"
proof -
  have it: "remainingRef (objects s ! p) < length (arrays s)"
    using assms(1) by (simp add: validObj_def)
  have rem: "arrays s ! remainingRef (objects s ! p) = remaining (stateAt s p)"
    by (simp add: stateAt_def)
  have 1: "returnsH (\<lambda>n. canForceWinGivenOfferH n m s p offeredIdx)
           (fst (canForceWinGivenOffer m (stateAt s p) offeredIdx))
           (snd (canForceWinGivenOffer m (stateAt s p) offeredIdx))"
    using solverH_returns(1)[of "stateAt s p" m offeredIdx] assms(1) by simp
  have 2: "returnsH (\<lambda>n. aiChooseCoinForOfferH n m s p offeredIdx)
           (fst (aiChooseCoinForOffer m (stateAt s p) offeredIdx))
           (snd (aiChooseCoinForOffer m (stateAt s p) offeredIdx))"
    unfolding aiChooseCoinForOfferH_def aiChooseCoinForOffer_def
    using chooseLoopH_returns[OF assms(1) refl it, of 0 "remaining (stateAt s p)" m offeredIdx] rem
    by simp
  have 3: "unchanged s s'"
    if "canForceWinGivenOfferH n m s p offeredIdx = Some (r, m', s')" for n r m' s'
    using frame_all[of n, THEN conjunct1, rule_format, OF that] .
  have 4: "unchanged s s'"
    if "aiChooseCoinForOfferH n m s p offeredIdx = Some (r, m', s')" for n r m' s'
    using frame_chooseLoopH that unfolding aiChooseCoinForOfferH_def by blast
  show ?thesis using 1 2 unchanged_pointwise[OF 3 assms(1)] unchanged_pointwise[OF 4 assms(1)]
    by blast
qed

theorem solver_leaves_state_unchanged_witness:
  "validObj \<lparr> arrays = [[1, 0, 5], [4]],
               objects = [\<lparr> sumsRef = 0, remainingRef = 1, turnVal = 3 \<rparr>] \<rparr> 0
   \<and> returnsH
        (\<lambda>n. canForceWinGivenOfferH n Map.empty
                \<lparr> arrays = [[1, 0, 5], [4]],
                  objects = [\<lparr> sumsRef = 0, remainingRef = 1, turnVal = 3 \<rparr>] \<rparr> 0 2)
        True
        (snd (canForceWinGivenOffer Map.empty \<lparr>sums = [1, 0, 5], remaining = [4], turn = 3\<rparr> 2))
   \<and> map_option (\<lambda>(r, m', s'). (r, take 2 (arrays s'), take 1 (objects s')))
        (canForceWinGivenOfferH 2 Map.empty
           \<lparr> arrays = [[1, 0, 5], [4]],
             objects = [\<lparr> sumsRef = 0, remainingRef = 1, turnVal = 3 \<rparr>] \<rparr> 0 2)
       = Some (True, [[1, 0, 5], [4]], [\<lparr> sumsRef = 0, remainingRef = 1, turnVal = 3 \<rparr>])"
proof -
  let ?s = "\<lparr> arrays = [[1, 0, 5], [4]],
               objects = [\<lparr> sumsRef = 0, remainingRef = 1, turnVal = 3 \<rparr>] \<rparr>"
  have v: "validObj ?s 0" by (simp add: validObj_def)
  have st: "stateAt ?s 0 = \<lparr>sums = [1, 0, 5], remaining = [4], turn = 3\<rparr>"
    by (simp add: stateAt_def)
  have ev: "fst (canForceWinGivenOffer Map.empty \<lparr>sums = [1, 0, 5], remaining = [4], turn = 3\<rparr> 2)"
    by code_simp
  have run: "map_option (\<lambda>(r, m', s'). (r, take 2 (arrays s'), take 1 (objects s')))
        (canForceWinGivenOfferH 2 Map.empty ?s 0 2)
       = Some (True, [[1, 0, 5], [4]], [\<lparr> sumsRef = 0, remainingRef = 1, turnVal = 3 \<rparr>])"
    by code_simp
  have wf: "wellFormed (stateAt ?s 0)" unfolding st by (simp add: wellFormed_def)
  have lt: "(2::nat) < 3" by simp
  from solver_leaves_state_unchanged[OF v wf lt, of Map.empty]
  show ?thesis using v ev run unfolding st by simp
qed

end
